theory Spec2Isabelle
  imports Complex_Main
begin

section \<open>The views reducer of \<open>pdf_game/reducer.py\<close>\<close>

text \<open>
  The reducer merges the game views (pages) that render exactly the same, links included.
  The Python objects are kept in two heaps: a list of game views, where a reference to a
  \<open>GameView\<close> is its position in the list, and a list of \<open>FingerprintedPage\<close>s, where a
  reference is again a position. Every mutation of the source returns the updated heap.
\<close>

subsection \<open>Errors\<close>

datatype error = AssertionError | KeyError | ZeroDivisionError | RecursionError

subsection \<open>Game views\<close>

type_synonym addr = nat

text \<open>
  A \<open>GameView\<close> as far as the reducer reads it: the identifier it was assigned, the view
  its identifier is taken from once \<open>page_id_from\<close> has been called on it, the \<open>actions\<close>
  dictionary (in insertion order, a value being a view or \<open>None\<close>), and everything else
  the renderer looks at.
\<close>

record 'c game_view =
  assigned_page_id :: nat
  page_id_source :: "addr option"
  actions :: "(string \<times> addr option) list"
  content :: 'c

text \<open>
  Modelled from the spec: the \<open>page_id\<close> property of \<open>GameView\<close>, a class that is not in
  \<open>reducer.py\<close>. The spec has a redirected page \<^emph>\<open>alias\<close> the identifier of its
  representative, so the identifier of a view is the one of the view it was redirected to,
  if any, and its assigned one otherwise. A chain of redirections that never ends has no
  value (Python raises \<open>RecursionError\<close>); a reference outside the heap has none either.
\<close>

partial_function (option) page_id :: "'c game_view list \<Rightarrow> addr \<Rightarrow> nat option" where
  "page_id gs v =
     (if v < length gs
      then (case page_id_source (gs ! v) of
              None \<Rightarrow> Some (assigned_page_id (gs ! v))
            | Some w \<Rightarrow> page_id gs w)
      else None)"

declare page_id.simps [code]

text \<open>
  Modelled from the spec: the \<open>page_id_from\<close> method of \<open>GameView\<close> (not in \<open>reducer.py\<close>):
  ``update the page's identifier to alias the representative's identifier''. Only the
  identifier of the view changes.
\<close>

definition page_id_from :: "'c game_view list \<Rightarrow> addr \<Rightarrow> addr \<Rightarrow> 'c game_view list" where
  "page_id_from gs v w = gs[v := (gs ! v)\<lparr>page_id_source := Some w\<rparr>]"

subsection \<open>Fingerprints\<close>

text \<open>
  \<open>render_page\<close> is imported from another module: it is a parameter \<open>R\<close>, the list of calls
  that \<open>FakePdfRecorder\<close> has recorded once \<open>render_page\<close> has run on a view, which may
  depend on the whole heap of views. The hash function of \<open>get_fingerprint\<close> is the
  parameter \<open>H\<close>.
\<close>

definition get_fingerprint :: "('call list \<Rightarrow> 'fp) \<Rightarrow> 'call list \<Rightarrow> 'fp" where
  "get_fingerprint H calls = H calls"

definition compute_fingerprint ::
  "('c game_view list \<Rightarrow> addr \<Rightarrow> 'call list) \<Rightarrow> ('call list \<Rightarrow> 'fp) \<Rightarrow>
   'c game_view list \<Rightarrow> addr \<Rightarrow> 'fp" where
  "compute_fingerprint R H gs v = get_fingerprint H (R gs v)"

record 'fp fingerprinted_page =
  game_view :: addr
  fingerprint :: 'fp
  incoming_pages :: "nat list"

definition FingerprintedPage ::
  "('c game_view list \<Rightarrow> addr \<Rightarrow> 'call list) \<Rightarrow> ('call list \<Rightarrow> 'fp) \<Rightarrow>
   'c game_view list \<Rightarrow> addr \<Rightarrow> 'fp fingerprinted_page" where
  "FingerprintedPage R H gs v =
     \<lparr>game_view = v, fingerprint = compute_fingerprint R H gs v, incoming_pages = []\<rparr>"

subsection \<open>\<open>build_fingerprinted_pages\<close>\<close>

text \<open>
  The dictionary \<open>fp_pages_per_page_id\<close>: the page of index \<open>i\<close> is stored under the
  identifier of its view, a later page replacing an earlier one with the same identifier.
\<close>

fun fp_pages_per_page_id ::
  "'c game_view list \<Rightarrow> addr list \<Rightarrow> nat \<Rightarrow> (nat \<rightharpoonup> nat) \<Rightarrow> error + (nat \<rightharpoonup> nat)" where
  "fp_pages_per_page_id gs [] i d = Inr d"
| "fp_pages_per_page_id gs (v # vs) i d =
     (case page_id gs v of
        None \<Rightarrow> Inl RecursionError
      | Some k \<Rightarrow> fp_pages_per_page_id gs vs (Suc i) (d(k \<mapsto> i)))"

text \<open>
  The inner loop of step 2, over the values of the \<open>actions\<close> of the page of index \<open>i\<close>:
  the page is appended to the \<open>incoming_pages\<close> of the page stored under the identifier
  of each view it links to.
\<close>

fun add_incoming ::
  "'c game_view list \<Rightarrow> (nat \<rightharpoonup> nat) \<Rightarrow> nat \<Rightarrow> addr option list \<Rightarrow>
   'fp fingerprinted_page list \<Rightarrow> error + 'fp fingerprinted_page list" where
  "add_incoming gs d i [] fps = Inr fps"
| "add_incoming gs d i (None # ts) fps = add_incoming gs d i ts fps"
| "add_incoming gs d i (Some t # ts) fps =
     (case page_id gs t of
        None \<Rightarrow> Inl RecursionError
      | Some k \<Rightarrow>
          (case d k of
             None \<Rightarrow> Inl KeyError
           | Some j \<Rightarrow>
               add_incoming gs d i ts
                 (fps[j := (fps ! j)\<lparr>incoming_pages := incoming_pages (fps ! j) @ [i]\<rparr>])))"

fun set_incoming_pages ::
  "'c game_view list \<Rightarrow> (nat \<rightharpoonup> nat) \<Rightarrow> addr list \<Rightarrow> nat \<Rightarrow>
   'fp fingerprinted_page list \<Rightarrow> error + 'fp fingerprinted_page list" where
  "set_incoming_pages gs d [] i fps = Inr fps"
| "set_incoming_pages gs d (v # vs) i fps =
     (case add_incoming gs d i (map snd (actions (gs ! v))) fps of
        Inl e \<Rightarrow> Inl e
      | Inr fps' \<Rightarrow> set_incoming_pages gs d vs (Suc i) fps')"

definition build_fingerprinted_pages ::
  "('c game_view list \<Rightarrow> addr \<Rightarrow> 'call list) \<Rightarrow> ('call list \<Rightarrow> 'fp) \<Rightarrow>
   'c game_view list \<Rightarrow> addr list \<Rightarrow> error + 'fp fingerprinted_page list" where
  "build_fingerprinted_pages R H gs game_views =
     (let fp_pages = map (FingerprintedPage R H gs) game_views in
      case fp_pages_per_page_id gs game_views 0 Map.empty of
        Inl e \<Rightarrow> Inl e
      | Inr d \<Rightarrow> set_incoming_pages gs d game_views 0 fp_pages)"

subsection \<open>One pass\<close>

text \<open>The loop of lines 44 and 45: the fingerprints of the incoming pages are computed again.\<close>

fun recompute_incoming ::
  "('c game_view list \<Rightarrow> addr \<Rightarrow> 'call list) \<Rightarrow> ('call list \<Rightarrow> 'fp) \<Rightarrow>
   'c game_view list \<Rightarrow> nat list \<Rightarrow> 'fp fingerprinted_page list \<Rightarrow>
   'fp fingerprinted_page list" where
  "recompute_incoming R H gs [] fps = fps"
| "recompute_incoming R H gs (j # js) fps =
     recompute_incoming R H gs js
       (fps[j := (fps ! j)\<lparr>fingerprint := compute_fingerprint R H gs (game_view (fps ! j))\<rparr>])"

text \<open>
  The \<open>for\<close> loop of lines 35 to 48 over the working list (references to fingerprinted
  pages), with the heap of views \<open>gs\<close>, the heap of fingerprinted pages \<open>fps\<close>, the dictionary
  \<open>gv_per_page_fingerprint\<close> and the list \<open>filtered_fp_pages\<close>. A view found in the
  dictionary counts as true on line 37. Comparing the identifiers on line 40 raises when
  one of them has no value.
\<close>

fun pass_loop ::
  "('c game_view list \<Rightarrow> addr \<Rightarrow> 'call list) \<Rightarrow> ('call list \<Rightarrow> 'fp) \<Rightarrow>
   'c game_view list \<Rightarrow> 'fp fingerprinted_page list \<Rightarrow> ('fp \<rightharpoonup> addr) \<Rightarrow> nat list \<Rightarrow>
   nat list \<Rightarrow>
   error + ('c game_view list \<times> 'fp fingerprinted_page list \<times> ('fp \<rightharpoonup> addr) \<times> nat list)" where
  "pass_loop R H gs fps gv_per_page_fingerprint filtered_fp_pages [] =
     Inr (gs, fps, gv_per_page_fingerprint, filtered_fp_pages)"
| "pass_loop R H gs fps gv_per_page_fingerprint filtered_fp_pages (fp_page # rest) =
     (case gv_per_page_fingerprint (fingerprint (fps ! fp_page)) of
        Some existing_matching_gv \<Rightarrow>
          (case (page_id gs (game_view (fps ! fp_page)), page_id gs existing_matching_gv) of
             (Some a, Some b) \<Rightarrow>
               if a = b then Inl AssertionError
               else
                 (let gs' = page_id_from gs (game_view (fps ! fp_page)) existing_matching_gv;
                      fps' = recompute_incoming R H gs' (incoming_pages (fps ! fp_page)) fps
                  in pass_loop R H gs' fps' gv_per_page_fingerprint filtered_fp_pages rest)
           | _ \<Rightarrow> Inl RecursionError)
      | None \<Rightarrow>
          pass_loop R H gs fps
            (gv_per_page_fingerprint(fingerprint (fps ! fp_page) \<mapsto> game_view (fps ! fp_page)))
            (filtered_fp_pages @ [fp_page]) rest)"

subsection \<open>\<open>reduce_views\<close>\<close>

definition MIN_REMOVED_VIEWS_TO_GO_ON :: int where
  "MIN_REMOVED_VIEWS_TO_GO_ON = 25"

text \<open>
  The \<open>while True\<close> loop of lines 29 to 54. It returns the heaps, the working list, and the
  counters \<open>pass_number\<close> and \<open>total_views_removed\<close> when it breaks.
\<close>

function passes ::
  "('c game_view list \<Rightarrow> addr \<Rightarrow> 'call list) \<Rightarrow> ('call list \<Rightarrow> 'fp) \<Rightarrow> bool \<Rightarrow>
   'c game_view list \<Rightarrow> 'fp fingerprinted_page list \<Rightarrow> nat list \<Rightarrow> nat \<Rightarrow> int \<Rightarrow>
   error + ('c game_view list \<times> 'fp fingerprinted_page list \<times> nat list \<times> nat \<times> int)" where
  "passes R H multipass gs fps fingerprinted_pages pass_number total_views_removed =
     (case pass_loop R H gs fps Map.empty [] fingerprinted_pages of
        Inl e \<Rightarrow> Inl e
      | Inr (gs', fps', gv_per_page_fingerprint, filtered_fp_pages) \<Rightarrow>
          (let views_removed = int (length fingerprinted_pages) - int (length filtered_fp_pages)
           in if views_removed = 0 \<or> \<not> multipass \<or> views_removed < MIN_REMOVED_VIEWS_TO_GO_ON
              then Inr (gs', fps', filtered_fp_pages, pass_number + 1,
                        total_views_removed + views_removed)
              else passes R H multipass gs' fps' filtered_fp_pages (pass_number + 1)
                     (total_views_removed + views_removed)))"
  by pat_completeness auto
termination
  by (relation "measure (\<lambda>(R, H, multipass, gs, fps, ws, p, t). length ws)")
    (auto simp: MIN_REMOVED_VIEWS_TO_GO_ON_def)

text \<open>
  What a run gives back: the views returned, the heap of views they live in, the
  percentage printed on line 55 (the exact quotient, where Python prints a float) and the
  number of the pass that would have come next.
\<close>

record 'c reduced =
  views :: "addr list"
  heap :: "'c game_view list"
  percent_removed :: rat
  next_pass_number :: nat

text \<open>
  \<open>assign_page_ids\<close> is imported from another module: it is the parameter \<open>assign\<close>, which
  gives the heap and the list of views the reducer then works on.
\<close>

definition reduce_views ::
  "('c game_view list \<Rightarrow> addr list \<Rightarrow> 'c game_view list \<times> addr list) \<Rightarrow>
   ('c game_view list \<Rightarrow> addr \<Rightarrow> 'call list) \<Rightarrow> ('call list \<Rightarrow> 'fp) \<Rightarrow>
   'c game_view list \<Rightarrow> addr list \<Rightarrow> bool \<Rightarrow> error + 'c reduced" where
  "reduce_views assign R H gs0 game_views0 multipass =
     (let (gs, game_views) = assign gs0 game_views0 in
      case build_fingerprinted_pages R H gs game_views of
        Inl e \<Rightarrow> Inl e
      | Inr fingerprinted_pages \<Rightarrow>
          (case passes R H multipass gs fingerprinted_pages [0..<length fingerprinted_pages] 1 0 of
             Inl e \<Rightarrow> Inl e
           | Inr (gs', fps', fingerprinted_pages', pass_number, total_views_removed) \<Rightarrow>
               if length game_views = 0 then Inl ZeroDivisionError
               else Inr \<lparr>views = map (\<lambda>fp_page. game_view (fps' ! fp_page)) fingerprinted_pages',
                         heap = gs',
                         percent_removed =
                           of_int (100 * total_views_removed) / of_nat (length game_views),
                         next_pass_number = pass_number\<rparr>))"

subsection \<open>A renderer and small page sets\<close>

text \<open>
  Modelled from the spec: \<open>render_page\<close>, which is not in \<open>reducer.py\<close>. The trace of a
  page is its drawn content and, for every action slot, the current identifier of the
  page it links to.
\<close>

definition render_links ::
  "'c game_view list \<Rightarrow> addr \<Rightarrow> ('c \<times> (string \<times> nat option) list) list" where
  "render_links gs v =
     [(content (gs ! v),
       map (\<lambda>(s, t). (s, case t of None \<Rightarrow> None | Some w \<Rightarrow> page_id gs w))
         (actions (gs ! v)))]"

text \<open>
  Modelled from the spec: the contract of \<open>render_page\<close> (section 6 of the spec, and the
  words of the fingerprint property: same drawn content, same link targets by current
  identifier). The trace of a page is a function of its content and of the current
  identifiers of the pages its action slots link to.
\<close>

definition links_of :: "'c game_view list \<Rightarrow> addr \<Rightarrow> (string \<times> nat option) list" where
  "links_of gs v =
     map (\<lambda>(s, t). (s, case t of None \<Rightarrow> None | Some w \<Rightarrow> page_id gs w)) (actions (gs ! v))"

definition render_local :: "('c game_view list \<Rightarrow> addr \<Rightarrow> 'call list) \<Rightarrow> bool" where
  "render_local R \<longleftrightarrow>
     (\<forall>gs gs' v. content (gs' ! v) = content (gs ! v) \<longrightarrow> links_of gs' v = links_of gs v \<longrightarrow>
        R gs' v = R gs v)"

text \<open>An identifier assignment that has been done already: the views keep their identifiers.\<close>

definition assigned_already ::
  "'c game_view list \<Rightarrow> addr list \<Rightarrow> 'c game_view list \<times> addr list" where
  "assigned_already gs game_views = (gs, game_views)"

definition new_view :: "nat \<Rightarrow> (string \<times> addr option) list \<Rightarrow> 'c \<Rightarrow> 'c game_view" where
  "new_view i as c =
     \<lparr>assigned_page_id = i, page_id_source = None, actions = as, content = c\<rparr>"

text \<open>Two pages that draw the same and link to nothing.\<close>

definition twins :: "nat game_view list" where
  "twins = [new_view 1 [] 0, new_view 2 [] 0]"

definition twins_pages :: "(nat \<times> (string \<times> nat option) list) list fingerprinted_page list" where
  "twins_pages =
     [\<lparr>game_view = 0, fingerprint = [(0, [])], incoming_pages = []\<rparr>,
      \<lparr>game_view = 1, fingerprint = [(0, [])], incoming_pages = []\<rparr>]"

text \<open>
  Four pages: two that draw the same and link to nothing (0 and 2), and two that draw the
  same and link to one of them each (1 to 2, 3 to 0).
\<close>

definition diamond :: "nat game_view list" where
  "diamond =
     [new_view 1 [] 0, new_view 2 [(''a'', Some 2)] 1, new_view 3 [] 0,
      new_view 4 [(''a'', Some 0)] 1]"

text \<open>The fingerprinted pages that \<open>build_fingerprinted_pages\<close> makes of them.\<close>

definition diamond_pages :: "(nat \<times> (string \<times> nat option) list) list fingerprinted_page list" where
  "diamond_pages =
     [\<lparr>game_view = 0, fingerprint = [(0, [])], incoming_pages = [3]\<rparr>,
      \<lparr>game_view = 1, fingerprint = [(1, [(''a'', Some 3)])], incoming_pages = []\<rparr>,
      \<lparr>game_view = 2, fingerprint = [(0, [])], incoming_pages = [1]\<rparr>,
      \<lparr>game_view = 3, fingerprint = [(1, [(''a'', Some 1)])], incoming_pages = []\<rparr>]"

text \<open>A second hash function, for the examples: the trace paired with its length.\<close>

definition with_length :: "'a list \<Rightarrow> 'a list \<times> nat" where
  "with_length calls = (calls, length calls)"

text \<open>A page that links to itself and nowhere else, and a page that draws something else.\<close>

definition loop_and_other :: "nat game_view list" where
  "loop_and_other = [new_view 1 [(''a'', Some 0)] 0, new_view 2 [] 1]"

text \<open>
  A page that links to itself, a page that draws the same and links to a leaf, and the
  leaf; the fingerprinted pages that \<open>build_fingerprinted_pages\<close> makes of them.
\<close>

definition three :: "nat game_view list" where
  "three = [new_view 1 [(''a'', Some 0)] 0, new_view 2 [(''a'', Some 2)] 0, new_view 3 [] 1]"

definition three_pages :: "(nat \<times> (string \<times> nat option) list) list fingerprinted_page list" where
  "three_pages =
     [\<lparr>game_view = 0, fingerprint = [(0, [(''a'', Some 1)])], incoming_pages = [0]\<rparr>,
      \<lparr>game_view = 1, fingerprint = [(0, [(''a'', Some 3)])], incoming_pages = []\<rparr>,
      \<lparr>game_view = 2, fingerprint = [(1, [])], incoming_pages = [1]\<rparr>]"

text \<open>The fingerprinted pages of the page 0 of \<open>twins\<close> listed twice.\<close>

definition twice :: "(nat \<times> (string \<times> nat option) list) list fingerprinted_page list" where
  "twice =
     [\<lparr>game_view = 0, fingerprint = [(0, [])], incoming_pages = []\<rparr>,
      \<lparr>game_view = 0, fingerprint = [(0, [])], incoming_pages = []\<rparr>]"

text \<open>
  Fifty-seven pages. Pages 0 and 1 draw the same; page 0 links to page 4 and page 1 to page
  2. Pages 2, 3 and 4 draw the same and link to the leaves 31, 32 and 32. Pages 5 to 30
  draw the same and link to one leaf each, 31 to 56. The leaves draw the same.
\<close>

definition chained :: "nat game_view list" where
  "chained =
     [new_view 1 [(''a'', Some 4)] 5, new_view 2 [(''a'', Some 2)] 5,
      new_view 3 [(''a'', Some 31)] 4, new_view 4 [(''a'', Some 32)] 4,
      new_view 5 [(''a'', Some 32)] 4]
     @ map (\<lambda>k. new_view (6 + k) [(''a'', Some (31 + k))] 3) [0..<26]
     @ map (\<lambda>k. new_view (32 + k) [] 2) [0..<26]"

text \<open>Running the reducer on the output of a run of the reducer.\<close>

definition reduce_again ::
  "('c game_view list \<Rightarrow> addr list \<Rightarrow> 'c game_view list \<times> addr list) \<Rightarrow>
   ('c game_view list \<Rightarrow> addr \<Rightarrow> 'call list) \<Rightarrow> ('call list \<Rightarrow> 'fp) \<Rightarrow>
   'c game_view list \<Rightarrow> addr list \<Rightarrow> bool \<Rightarrow> error + 'c reduced" where
  "reduce_again assign R H gs0 game_views0 multipass =
     (case reduce_views assign R H gs0 game_views0 multipass of
        Inl e \<Rightarrow> Inl e
      | Inr r \<Rightarrow> reduce_views assign R H (heap r) (views r) multipass)"

subsection \<open>Predicates of the properties\<close>

text \<open>Two states of a page that differ in its identifier at most.\<close>

definition same_page :: "'c game_view \<Rightarrow> 'c game_view \<Rightarrow> bool" where
  "same_page g g' \<longleftrightarrow> actions g' = actions g \<and> content g' = content g"

text \<open>Two heaps of views that differ in the redirections (\<open>page_id_source\<close>) at most.\<close>

definition redirected_only :: "'c game_view list \<Rightarrow> 'c game_view list \<Rightarrow> bool" where
  "redirected_only gs gs' \<longleftrightarrow>
     list_all2 (\<lambda>g g'. assigned_page_id g' = assigned_page_id g \<and> same_page g g') gs gs'"

text \<open>
  Two hash functions and the fingerprints they give to the same trace; pages and
  dictionaries that differ in that at most.
\<close>

definition fingerprints_agree :: "('t \<Rightarrow> 'a) \<Rightarrow> ('t \<Rightarrow> 'b) \<Rightarrow> 'a \<Rightarrow> 'b \<Rightarrow> bool" where
  "fingerprints_agree H1 H2 x y \<longleftrightarrow> (\<exists>t. x = H1 t \<and> y = H2 t)"

definition pages_agree ::
  "('t \<Rightarrow> 'a) \<Rightarrow> ('t \<Rightarrow> 'b) \<Rightarrow> 'a fingerprinted_page \<Rightarrow> 'b fingerprinted_page \<Rightarrow> bool" where
  "pages_agree H1 H2 p q \<longleftrightarrow>
     game_view p = game_view q \<and> incoming_pages p = incoming_pages q \<and>
     fingerprints_agree H1 H2 (fingerprint p) (fingerprint q)"

definition dicts_agree ::
  "('t \<Rightarrow> 'a) \<Rightarrow> ('t \<Rightarrow> 'b) \<Rightarrow> ('a \<rightharpoonup> addr) \<Rightarrow> ('b \<rightharpoonup> addr) \<Rightarrow> bool" where
  "dicts_agree H1 H2 m1 m2 \<longleftrightarrow> (\<forall>t. m1 (H1 t) = m2 (H2 t))"

definition same_collisions :: "('t \<Rightarrow> 'a) \<Rightarrow> ('t \<Rightarrow> 'b) \<Rightarrow> bool" where
  "same_collisions H1 H2 \<longleftrightarrow> (\<forall>a b. (H1 a = H1 b) = (H2 a = H2 b))"

text \<open>
  What the reducer expects of \<open>assign_page_ids\<close> (section 6 of the spec): the views given
  to the reducer are different views of the heap, every view of the heap has an identifier
  of its own, no view is redirected yet, and the actions refer to views of the heap.
\<close>

definition fresh_views :: "'c game_view list \<Rightarrow> addr list \<Rightarrow> bool" where
  "fresh_views gs game_views \<longleftrightarrow>
     distinct game_views \<and> list_all (\<lambda>v. v < length gs) game_views \<and>
     distinct (map assigned_page_id gs) \<and>
     list_all (\<lambda>g. page_id_source g = None) gs \<and>
     list_all (\<lambda>g. list_all (\<lambda>t. case t of None \<Rightarrow> True | Some w \<Rightarrow> w < length gs)
                      (map snd (actions g))) gs"

text \<open>
  The state in the middle of a pass, with the pages kept so far (\<open>f\<close>) and the pages still
  to look at (\<open>ws\<close>): these pages are different pages, none of them is redirected, every
  view given to the reducer has the identifier of one of them, and the dictionary holds
  views of pages kept.
\<close>

definition pass_invariant ::
  "'c game_view list \<Rightarrow> addr list \<Rightarrow> 'fp fingerprinted_page list \<Rightarrow> ('fp \<rightharpoonup> addr) \<Rightarrow>
   nat list \<Rightarrow> nat list \<Rightarrow> bool" where
  "pass_invariant gs game_views fps m f ws \<longleftrightarrow>
     map game_view fps = game_views \<and> distinct game_views \<and>
     (\<forall>v\<in>set game_views. v < length gs) \<and>
     distinct (map assigned_page_id gs) \<and>
     distinct (f @ ws) \<and>
     (\<forall>i\<in>set (f @ ws). i < length fps \<and> page_id_source (gs ! (game_views ! i)) = None) \<and>
     (\<forall>v\<in>set game_views. \<exists>i\<in>set (f @ ws).
        page_id gs v = Some (assigned_page_id (gs ! (game_views ! i)))) \<and>
     (\<forall>k e. m k = Some e \<longrightarrow> (\<exists>j\<in>set f. e = game_views ! j))"

text \<open>
  The state in the middle of the first pass, with the pages still to look at (\<open>ws\<close>): the
  fingerprint stored for every page is the fingerprint of its trace in the current heap,
  every page is among the incoming pages of the pages it links to, and a page still to
  look at is the page of its identifier only.
\<close>

definition first_pass_invariant ::
  "('c game_view list \<Rightarrow> addr \<Rightarrow> 'call list) \<Rightarrow> ('call list \<Rightarrow> 'fp) \<Rightarrow> 'c game_view list \<Rightarrow>
   addr list \<Rightarrow> 'fp fingerprinted_page list \<Rightarrow> nat list \<Rightarrow> bool" where
  "first_pass_invariant R H gs game_views fps ws \<longleftrightarrow>
     (\<forall>i<length fps. fingerprint (fps ! i) = compute_fingerprint R H gs (game_views ! i)) \<and>
     (\<forall>i<length game_views. \<forall>t. Some t \<in> set (map snd (actions (gs ! (game_views ! i)))) \<longrightarrow>
        (\<exists>j<length game_views. t = game_views ! j \<and> i \<in> set (incoming_pages (fps ! j)))) \<and>
     (\<forall>v\<in>set game_views. \<forall>w\<in>set ws.
        page_id gs v = Some (assigned_page_id (gs ! (game_views ! w))) \<longrightarrow> v = game_views ! w)"

text \<open>
  A page \<open>p\<close> whose fingerprint \<open>k0\<close> no other page has, in the middle of a pass: it is among
  the pages kept or still to look at, no other page holds its fingerprint or has it among
  its incoming pages, and the dictionary does not know its fingerprint before the loop
  has reached it.
\<close>

definition kept_apart ::
  "nat \<Rightarrow> 'fp \<Rightarrow> 'fp fingerprinted_page list \<Rightarrow> ('fp \<rightharpoonup> addr) \<Rightarrow> nat list \<Rightarrow> nat list \<Rightarrow> bool"
  where
  "kept_apart p k0 fps m f ws \<longleftrightarrow>
     p \<in> set (f @ ws) \<and> fingerprint (fps ! p) = k0 \<and>
     (\<forall>i<length fps. i \<noteq> p \<longrightarrow>
        fingerprint (fps ! i) \<noteq> k0 \<and> p \<notin> set (incoming_pages (fps ! i))) \<and>
     (p \<in> set ws \<longrightarrow> m k0 = None)"

text \<open>
  The state in which the loop of \<open>passes\<close> starts its pass number \<open>k + 1\<close>, counted from the
  state given, if the loop gets that far: the loop has not raised and has not reached its
  \<open>break\<close> in the \<open>k\<close> passes before.
\<close>

fun pass_state ::
  "('c game_view list \<Rightarrow> addr \<Rightarrow> 'call list) \<Rightarrow> ('call list \<Rightarrow> 'fp) \<Rightarrow> bool \<Rightarrow> nat \<Rightarrow>
   'c game_view list \<Rightarrow> 'fp fingerprinted_page list \<Rightarrow> nat list \<Rightarrow> nat \<Rightarrow> int \<Rightarrow>
   ('c game_view list \<times> 'fp fingerprinted_page list \<times> nat list \<times> nat \<times> int) option" where
  "pass_state R H multipass 0 gs fps ws p t = Some (gs, fps, ws, p, t)"
| "pass_state R H multipass (Suc k) gs fps ws p t =
     (case pass_loop R H gs fps Map.empty [] ws of
        Inl e \<Rightarrow> None
      | Inr (gs', fps', m, filtered) \<Rightarrow>
          (let views_removed = int (length ws) - int (length filtered)
           in if views_removed = 0 \<or> \<not> multipass \<or> views_removed < MIN_REMOVED_VIEWS_TO_GO_ON
              then None
              else pass_state R H multipass k gs' fps' filtered (p + 1) (t + views_removed)))"

text \<open>
  The heaps of views a run goes through, from the state in which a pass starts: the heap
  after any number of steps of the loop of that pass, or of a later pass that the run
  gets to.
\<close>

definition reached ::
  "('c game_view list \<Rightarrow> addr \<Rightarrow> 'call list) \<Rightarrow> ('call list \<Rightarrow> 'fp) \<Rightarrow> bool \<Rightarrow>
   'c game_view list \<Rightarrow> 'fp fingerprinted_page list \<Rightarrow> nat list \<Rightarrow> nat \<Rightarrow> int \<Rightarrow>
   'c game_view list \<Rightarrow> bool" where
  "reached R H multipass gs fps ws p t gs' \<longleftrightarrow>
     (\<exists>k gsk fpsk pre suf pk tk fps' m' f'.
        pass_state R H multipass k gs fps ws p t = Some (gsk, fpsk, pre @ suf, pk, tk) \<and>
        pass_loop R H gsk fpsk Map.empty [] pre = Inr (gs', fps', m', f'))"

section \<open>Properties\<close>

declare passes.simps [simp del]

subsection \<open>The loop over the pages of a pass\<close>

lemma pass_loop_append:
  "pass_loop R H gs fps m f (xs @ ys) =
     (case pass_loop R H gs fps m f xs of
        Inl e \<Rightarrow> Inl e
      | Inr (gs1, fps1, m1, f1) \<Rightarrow> pass_loop R H gs1 fps1 m1 f1 ys)"
proof (induction xs arbitrary: gs fps m f)
  case Nil
  show ?case by simp
next
  case (Cons x xs)
  show ?case
  proof (cases "m (fingerprint (fps ! x))")
    case None
    then show ?thesis
      apply (simp only: append_Cons pass_loop.simps option.case)
      apply (subst Cons.IH)
      apply (rule refl)
      done
  next
    case (Some e)
    then show ?thesis
      apply (simp only: append_Cons pass_loop.simps option.case)
      apply (simp only: Cons.IH Let_def split: option.split prod.split)
      apply simp
      done
  qed
qed

lemma pass_loop_filtered_length:
  "pass_loop R H gs fps m f ws = Inr (gs', fps', m', f') \<Longrightarrow>
   length f \<le> length f' \<and> length f' \<le> length f + length ws"
proof (induction ws arbitrary: gs fps m f)
  case Nil
  then show ?case by simp
next
  case (Cons x xs)
  show ?case
  proof (cases "m (fingerprint (fps ! x))")
    case None
    with Cons.prems have
      "pass_loop R H gs fps (m(fingerprint (fps ! x) \<mapsto> game_view (fps ! x))) (f @ [x]) xs =
         Inr (gs', fps', m', f')"
      by simp
    from Cons.IH[OF this] show ?thesis by simp
  next
    case (Some e)
    with Cons.prems obtain gs1 fps1 where
      "pass_loop R H gs1 fps1 m f xs = Inr (gs', fps', m', f')"
      by (auto simp: Let_def split: option.splits if_splits)
    from Cons.IH[OF this] show ?thesis by simp
  qed
qed

subsection \<open>The empty page set\<close>

text \<open>
  C9. With no view left after the identifiers are assigned, the reducer runs one pass over
  nothing and then divides by the number of views, which is zero: it raises
  \<open>ZeroDivisionError\<close> and returns no reduced set.
\<close>

theorem reduce_views_empty:
  "snd (assign gs0 []) = [] \<Longrightarrow>
   reduce_views assign R H gs0 [] multipass = Inl ZeroDivisionError"
proof -
  assume "snd (assign gs0 []) = []"
  then obtain gs where "assign gs0 [] = (gs, [])"
    by (cases "assign gs0 []") simp
  then show ?thesis
    by (simp add: reduce_views_def build_fingerprinted_pages_def passes.simps)
qed

theorem reduce_views_empty_witness:
  "snd (assigned_already twins []) = [] \<and>
   reduce_views assigned_already render_links id twins [] True = Inl ZeroDivisionError"
  using reduce_views_empty [of assigned_already twins render_links id True]
  by (simp add: assigned_already_def)

subsection \<open>When the passes stop\<close>

text \<open>
  C5. A pass that ends without error with the list \<open>filtered\<close> is the last one exactly when
  it removed no page, or \<open>multipass\<close> is off, or it removed fewer than 25 pages; otherwise
  \<open>filtered\<close> is the working list of the next pass.
\<close>

theorem passes_stop_iff:
  assumes "pass_loop R H gs fps Map.empty [] ws = Inr (gs', fps', m, filtered)"
  shows "passes R H multipass gs fps ws p t =
     (if int (length ws) - int (length filtered) = 0 \<or> \<not> multipass
         \<or> int (length ws) - int (length filtered) < 25
      then Inr (gs', fps', filtered, p + 1, t + (int (length ws) - int (length filtered)))
      else passes R H multipass gs' fps' filtered (p + 1)
             (t + (int (length ws) - int (length filtered))))"
  using assms by (subst passes.simps) (simp add: MIN_REMOVED_VIEWS_TO_GO_ON_def Let_def)

theorem passes_stop_iff_witness:
  "pass_loop render_links id twins twins_pages Map.empty [] [0, 1] =
     Inr (page_id_from twins 1 0, twins_pages, [[(0, [])] \<mapsto> 0], [0]) \<and>
   passes render_links id True twins twins_pages [0, 1] 1 0 =
     Inr (page_id_from twins 1 0, twins_pages, [0], 2, 1)"
proof -
  have pl: "pass_loop render_links id twins twins_pages Map.empty [] [0, 1] =
     Inr (page_id_from twins 1 0, twins_pages, [[(0, [])] \<mapsto> 0], [0])"
    by (simp add: twins_def twins_pages_def new_view_def page_id.simps)
  from passes_stop_iff [OF pl, of True 1 0] pl show ?thesis
    by simp
qed

subsection \<open>The assertion of line 42\<close>

lemma passes_pass_state:
  "pass_state R H mp k gs fps ws p t = Some (gs', fps', ws', p', t') \<Longrightarrow>
   passes R H mp gs fps ws p t = passes R H mp gs' fps' ws' p' t' \<and>
   k * 25 + length ws' \<le> length ws"
proof (induction k arbitrary: gs fps ws p t)
  case 0
  then show ?case by simp
next
  case (Suc k)
  from Suc.prems obtain gs1 fps1 m1 f1 where
    pl: "pass_loop R H gs fps Map.empty [] ws = Inr (gs1, fps1, m1, f1)"
    by (auto split: sum.splits)
  let ?r = "int (length ws) - int (length f1)"
  from Suc.prems pl have go: "\<not> (?r = 0 \<or> \<not> mp \<or> ?r < MIN_REMOVED_VIEWS_TO_GO_ON)"
    and st: "pass_state R H mp k gs1 fps1 f1 (p + 1) (t + ?r) = Some (gs', fps', ws', p', t')"
    by (auto simp: Let_def split: if_splits)
  from go pl have "passes R H mp gs fps ws p t = passes R H mp gs1 fps1 f1 (p + 1) (t + ?r)"
    by (simp add: passes.simps[of _ _ _ _ _ ws])
  moreover from go have "length f1 + 25 \<le> length ws"
    by (simp add: MIN_REMOVED_VIEWS_TO_GO_ON_def)
  ultimately show ?case
    using Suc.IH[OF st] by simp
qed

lemma passes_same_identifier:
  assumes "pass_loop R H gs fps Map.empty [] pre = Inr (gs1, fps1, m, filtered)"
    and "m (fingerprint (fps1 ! fp_page)) = Some existing"
    and "page_id gs1 (game_view (fps1 ! fp_page)) = Some a"
    and "page_id gs1 existing = Some a"
  shows "passes R H multipass gs fps (pre @ fp_page # rest) p t = Inl AssertionError"
  using assms by (subst passes.simps) (simp add: pass_loop_append)

text \<open>
  C4. In any pass of any run, when the loop reaches a page whose fingerprint is already in
  the dictionary and whose identifier is the one of the view stored there, \<open>reduce_views\<close>
  ends with \<open>AssertionError\<close>: the page is not redirected and no further page is looked
  at. The loop of passes being a total function, the run does not loop.
\<close>

theorem same_identifier_aborts:
  assumes assigned: "assign gs0 game_views0 = (gs, game_views)"
    and built: "build_fingerprinted_pages R H gs game_views = Inr fps"
    and pass: "pass_state R H multipass k gs fps [0..<length fps] 1 0 =
                 Some (gs1, fps1, pre @ fp_page # rest, p, t)"
    and before: "pass_loop R H gs1 fps1 Map.empty [] pre = Inr (gs2, fps2, m, filtered)"
    and found: "m (fingerprint (fps2 ! fp_page)) = Some existing"
    and same: "page_id gs2 (game_view (fps2 ! fp_page)) = Some a" "page_id gs2 existing = Some a"
  shows "reduce_views assign R H gs0 game_views0 multipass = Inl AssertionError"
proof -
  from passes_pass_state[OF pass] passes_same_identifier[OF before found same] have
    "passes R H multipass gs fps [0..<length fps] 1 0 = Inl AssertionError"
    by simp
  with assigned built show ?thesis
    by (simp add: reduce_views_def)
qed

text \<open>The same view listed twice: the second occurrence has the identifier of the first.\<close>

theorem same_identifier_aborts_witness:
  "assigned_already twins [0, 0] = (twins, [0, 0]) \<and>
   build_fingerprinted_pages render_links id twins [0, 0] = Inr twice \<and>
   pass_state render_links id True 0 twins twice [0..<length twice] 1 0 =
     Some (twins, twice, [0] @ 1 # [], 1, 0) \<and>
   pass_loop render_links id twins twice Map.empty [] [0] =
     Inr (twins, twice, [[(0, [])] \<mapsto> 0], [0]) \<and>
   [[(0::nat, [] :: (string \<times> nat option) list)] \<mapsto> (0::nat)] (fingerprint (twice ! 1)) = Some 0 \<and>
   page_id twins (game_view (twice ! 1)) = Some 1 \<and> page_id twins 0 = Some 1 \<and>
   reduce_views assigned_already render_links id twins [0, 0] True = Inl AssertionError"
proof -
  have a: "assigned_already twins [0, 0] = (twins, [0, 0])"
    by (simp add: assigned_already_def)
  have b: "build_fingerprinted_pages render_links id twins [0, 0] = Inr twice"
    by (simp add: build_fingerprinted_pages_def FingerprintedPage_def compute_fingerprint_def
          get_fingerprint_def render_links_def page_id.simps twins_def new_view_def twice_def)
  have s: "pass_state render_links id True 0 twins twice [0..<length twice] 1 0 =
     Some (twins, twice, [0] @ 1 # [], 1, 0)"
    by (simp add: twice_def upt_rec)
  have pl: "pass_loop render_links id twins twice Map.empty [] [0] =
     Inr (twins, twice, [[(0, [])] \<mapsto> 0], [0])"
    by (simp add: twice_def)
  have m: "[[(0::nat, [] :: (string \<times> nat option) list)] \<mapsto> (0::nat)]
             (fingerprint (twice ! 1)) = Some 0"
    by (simp add: twice_def)
  have x: "page_id twins (game_view (twice ! 1)) = Some 1"
    by (simp add: twice_def twins_def new_view_def page_id.simps)
  have y: "page_id twins 0 = Some 1"
    by (simp add: twins_def new_view_def page_id.simps)
  from same_identifier_aborts [where assign = assigned_already, OF a b s pl m x y]
       a b s pl m x y
  show ?thesis
    by simp
qed

subsection \<open>Termination and the number of passes\<close>

lemma passes_bound:
  "passes R H mp gs fps ws p t = Inr (gs', fps', ws', p', t') \<Longrightarrow>
   p < p' \<and> p' \<le> p + length ws div 25 + 1 \<and> (p' - p - 1) * 25 + length ws' \<le> length ws"
proof (induction R H mp gs fps ws p t rule: passes.induct)
  case (1 R H mp gs fps ws p t)
  from "1.prems" obtain gs1 fps1 m1 f1 where
    pl: "pass_loop R H gs fps Map.empty [] ws = Inr (gs1, fps1, m1, f1)"
    by (subst (asm) passes.simps) (auto split: sum.splits)
  let ?r = "int (length ws) - int (length f1)"
  from pass_loop_filtered_length[OF pl] have le: "length f1 \<le> length ws"
    by simp
  show ?case
  proof (cases "?r = 0 \<or> \<not> mp \<or> ?r < MIN_REMOVED_VIEWS_TO_GO_ON")
    case True
    with "1.prems" pl have "p' = p + 1 \<and> ws' = f1"
      by (subst (asm) passes.simps) (auto simp: Let_def)
    with le show ?thesis by simp
  next
    case False
    with "1.prems" pl have
      "passes R H mp gs1 fps1 f1 (p + 1) (t + ?r) = Inr (gs', fps', ws', p', t')"
      by (subst (asm) passes.simps) (auto simp: Let_def)
    with "1.IH"[OF pl refl refl refl _ False] have
      ih: "p + 1 < p'" "p' \<le> p + 1 + length f1 div 25 + 1"
        "(p' - (p + 1) - 1) * 25 + length ws' \<le> length f1"
      by simp_all
    from False have dec: "length f1 + 25 \<le> length ws"
      by (simp add: MIN_REMOVED_VIEWS_TO_GO_ON_def)
    then have "(length f1 + 25) div 25 \<le> length ws div 25"
      by (rule div_le_mono)
    then have "length f1 div 25 + 1 \<le> length ws div 25"
      by simp
    moreover from ih(1) have "(p' - p - 1) * 25 = (p' - (p + 1) - 1) * 25 + 25"
      by (simp add: algebra_simps diff_mult_distrib)
    ultimately show ?thesis using ih dec by simp
  qed
qed

lemma add_incoming_length:
  "add_incoming gs d i ts fps = Inr fps' \<Longrightarrow> length fps' = length fps"
  by (induction gs d i ts fps rule: add_incoming.induct) (auto split: option.splits)

lemma set_incoming_pages_length:
  "set_incoming_pages gs d vs i fps = Inr fps' \<Longrightarrow> length fps' = length fps"
  by (induction gs d vs i fps rule: set_incoming_pages.induct)
     (auto split: sum.splits dest: add_incoming_length)

lemma build_fingerprinted_pages_length:
  "build_fingerprinted_pages R H gs game_views = Inr fps \<Longrightarrow> length fps = length game_views"
  by (auto simp: build_fingerprinted_pages_def Let_def split: sum.splits
           dest: set_incoming_pages_length)

text \<open>
  C10. The loop of passes is a total function: its recursion is on a working list that
  gets shorter (see the termination proof of \<open>passes\<close>). A pass that does not leave the loop
  removes at least 25 pages, so that pass number \<open>k + 1\<close> starts with at most \<open>n - 25 k\<close> of
  the \<open>n\<close> pages, whatever the end of the run. When the run returns, the number of passes
  it made, \<open>next_pass_number - 1\<close>, is at most \<open>n div 25 + 1\<close>.
\<close>

theorem reduce_views_passes_bounded:
  assumes assigned: "assign gs0 game_views0 = (gs, game_views)"
    and built: "build_fingerprinted_pages R H gs game_views = Inr fps"
  shows "(pass_state R H multipass k gs fps [0..<length fps] 1 0 = Some (gs1, fps1, ws1, p1, t1)
            \<longrightarrow> k * 25 + length ws1 \<le> length game_views) \<and>
         (reduce_views assign R H gs0 game_views0 multipass = Inr r \<longrightarrow>
            next_pass_number r - 1 \<le> length game_views div 25 + 1 \<and>
            (next_pass_number r - 2) * 25 + length (views r) \<le> length game_views)"
proof (intro conjI impI)
  assume "pass_state R H multipass k gs fps [0..<length fps] 1 0 = Some (gs1, fps1, ws1, p1, t1)"
  from passes_pass_state[OF this] build_fingerprinted_pages_length[OF built]
  show "k * 25 + length ws1 \<le> length game_views"
    by simp
next
  assume run: "reduce_views assign R H gs0 game_views0 multipass = Inr r"
  with assigned built obtain gs' fps' ws' p' t' where
    p: "passes R H multipass gs fps [0..<length fps] 1 0 = Inr (gs', fps', ws', p', t')"
    and r: "next_pass_number r = p'" "length (views r) = length ws'"
    by (auto simp: reduce_views_def split: sum.splits if_splits)
  from passes_bound[OF p] build_fingerprinted_pages_length[OF built] have
    "p' \<le> 1 + length game_views div 25 + 1"
    "(p' - 1 - 1) * 25 + length ws' \<le> length game_views"
    by simp_all
  then have "p' - 1 \<le> length game_views div 25 + 1"
    "(p' - 2) * 25 + length ws' \<le> length game_views"
    by (simp_all add: numeral_2_eq_2 le_diff_conv)
  with r show "next_pass_number r - 1 \<le> length game_views div 25 + 1"
    and "(next_pass_number r - 2) * 25 + length (views r) \<le> length game_views"
    by simp_all
qed

theorem reduce_views_passes_bounded_witness:
  "assigned_already twins [0, 1] = (twins, [0, 1]) \<and>
   build_fingerprinted_pages render_links id twins [0, 1] = Inr twins_pages \<and>
   pass_state render_links id True 0 twins twins_pages [0..<length twins_pages] 1 0 =
     Some (twins, twins_pages, [0, 1], 1, 0) \<and>
   0 * 25 + length [0::nat, 1] \<le> length [0::nat, 1] \<and>
   reduce_views assigned_already render_links id twins [0, 1] True =
     Inr \<lparr>views = [0], heap = page_id_from twins 1 0, percent_removed = 50,
          next_pass_number = 2\<rparr> \<and>
   (2::nat) - 1 \<le> length [0::nat, 1] div 25 + 1 \<and>
   ((2::nat) - 2) * 25 + length [0::nat] \<le> length [0::nat, 1]"
proof -
  have a: "assigned_already twins [0, 1] = (twins, [0, 1])"
    by (simp add: assigned_already_def)
  have b: "build_fingerprinted_pages render_links id twins [0, 1] = Inr twins_pages"
    by (simp add: build_fingerprinted_pages_def FingerprintedPage_def compute_fingerprint_def
          get_fingerprint_def render_links_def page_id.simps twins_def new_view_def
          twins_pages_def)
  have s: "pass_state render_links id True 0 twins twins_pages [0..<length twins_pages] 1 0 =
     Some (twins, twins_pages, [0, 1], 1, 0)"
    by (simp add: twins_pages_def upt_rec)
  have r: "reduce_views assigned_already render_links id twins [0, 1] True =
     Inr \<lparr>views = [0], heap = page_id_from twins 1 0, percent_removed = 50,
          next_pass_number = 2\<rparr>"
    by (simp add: reduce_views_def assigned_already_def build_fingerprinted_pages_def
          FingerprintedPage_def compute_fingerprint_def get_fingerprint_def render_links_def
          page_id.simps twins_def new_view_def page_id_from_def upt_rec
          MIN_REMOVED_VIEWS_TO_GO_ON_def passes.simps)
  from reduce_views_passes_bounded
         [where assign = assigned_already and multipass = True and k = 0 and ?gs1.0 = twins
            and ?fps1.0 = twins_pages and ?ws1.0 = "[0, 1]" and ?p1.0 = 1 and ?t1.0 = 0
            and r = "\<lparr>views = [0], heap = page_id_from twins 1 0, percent_removed = 50,
                      next_pass_number = 2\<rparr>", OF a b]
       a b s r
  show ?thesis
    by simp
qed


subsection \<open>What a run changes in the views\<close>

lemma redirected_only_refl: "redirected_only gs gs"
  by (simp add: redirected_only_def same_page_def list_all2_refl)

lemma redirected_only_page_id_from:
  "redirected_only gs0 gs \<Longrightarrow> redirected_only gs0 (page_id_from gs v w)"
proof (cases "v < length gs")
  case True
  assume "redirected_only gs0 gs"
  with True show ?thesis
    unfolding redirected_only_def page_id_from_def same_page_def
    by (auto simp: list_all2_conv_all_nth nth_list_update)
next
  case False
  assume "redirected_only gs0 gs"
  with False show ?thesis
    by (simp add: page_id_from_def list_update_beyond)
qed

lemma pass_loop_redirected_only:
  "pass_loop R H gs fps m f ws = Inr (gs', fps', m', f') \<Longrightarrow> redirected_only gs0 gs \<Longrightarrow>
   redirected_only gs0 gs'"
proof (induction ws arbitrary: gs fps m f)
  case Nil
  then show ?case by simp
next
  case (Cons x xs)
  show ?case
  proof (cases "m (fingerprint (fps ! x))")
    case None
    with Cons.prems(1) have
      "pass_loop R H gs fps (m(fingerprint (fps ! x) \<mapsto> game_view (fps ! x))) (f @ [x]) xs =
         Inr (gs', fps', m', f')"
      by simp
    from Cons.IH[OF this Cons.prems(2)] show ?thesis .
  next
    case (Some e)
    with Cons.prems(1) obtain fps1 where
      "pass_loop R H (page_id_from gs (game_view (fps ! x)) e) fps1 m f xs = Inr (gs', fps', m', f')"
      by (auto simp: Let_def split: option.splits if_splits)
    from Cons.IH[OF this redirected_only_page_id_from[OF Cons.prems(2)]] show ?thesis .
  qed
qed

lemma passes_redirected_only:
  "passes R H mp gs fps ws p t = Inr (gs', fps', ws', p', t') \<Longrightarrow> redirected_only gs0 gs \<Longrightarrow>
   redirected_only gs0 gs'"
proof (induction R H mp gs fps ws p t rule: passes.induct)
  case (1 R H mp gs fps ws p t)
  from "1.prems"(1) obtain gs1 fps1 m1 f1 where
    pl: "pass_loop R H gs fps Map.empty [] ws = Inr (gs1, fps1, m1, f1)"
    by (subst (asm) passes.simps) (auto split: sum.splits)
  note ro = pass_loop_redirected_only[OF pl "1.prems"(2)]
  let ?r = "int (length ws) - int (length f1)"
  show ?case
  proof (cases "?r = 0 \<or> \<not> mp \<or> ?r < MIN_REMOVED_VIEWS_TO_GO_ON")
    case True
    with "1.prems"(1) pl have "gs' = gs1"
      by (subst (asm) passes.simps) (auto simp: Let_def)
    with ro show ?thesis by simp
  next
    case False
    with "1.prems"(1) pl have
      "passes R H mp gs1 fps1 f1 (p + 1) (t + ?r) = Inr (gs', fps', ws', p', t')"
      by (subst (asm) passes.simps) (auto simp: Let_def)
    from "1.IH"[OF pl refl refl refl _ False this ro] show ?thesis by simp
  qed
qed

lemma redirected_only_same_pages:
  "list_all2 same_page gs0 gs \<Longrightarrow> redirected_only gs gs' \<Longrightarrow> list_all2 same_page gs0 gs'"
  unfolding redirected_only_def same_page_def
  by (auto simp: list_all2_conv_all_nth)

text \<open>
  C8. Between the views given to \<open>reduce_views\<close> and the heap it returns, the actions and
  the content of every view are the same, provided the identifier assignment leaves them
  alone: the reducer itself changes nothing of a view but the view its identifier is taken
  from.
\<close>

theorem only_identifier_mutated:
  assumes "reduce_views assign R H gs0 game_views0 multipass = Inr r"
    and "list_all2 same_page gs0 (fst (assign gs0 game_views0))"
  shows "list_all2 same_page gs0 (heap r)"
proof -
  obtain gs game_views where a: "assign gs0 game_views0 = (gs, game_views)"
    by (cases "assign gs0 game_views0")
  from assms a obtain fps where b: "build_fingerprinted_pages R H gs game_views = Inr fps"
    by (auto simp: reduce_views_def split: sum.splits)
  from assms a b obtain gs' fps' ws' p' t' where
    p: "passes R H multipass gs fps [0..<length fps] 1 0 = Inr (gs', fps', ws', p', t')"
    and r: "heap r = gs'"
    by (auto simp: reduce_views_def split: sum.splits if_splits)
  from passes_redirected_only[OF p redirected_only_refl] have "redirected_only gs gs'" .
  with assms(2) a r show ?thesis
    by (simp add: redirected_only_same_pages)
qed


theorem only_identifier_mutated_witness:
  "reduce_views assigned_already render_links id twins [0, 1] True =
     Inr \<lparr>views = [0], heap = page_id_from twins 1 0, percent_removed = 50,
          next_pass_number = 2\<rparr> \<and>
   list_all2 same_page twins (fst (assigned_already twins [0, 1])) \<and>
   list_all2 same_page twins (page_id_from twins 1 0)"
proof -
  have r: "reduce_views assigned_already render_links id twins [0, 1] True =
     Inr \<lparr>views = [0], heap = page_id_from twins 1 0, percent_removed = 50,
          next_pass_number = 2\<rparr>"
    by (simp add: reduce_views_def assigned_already_def build_fingerprinted_pages_def
          FingerprintedPage_def compute_fingerprint_def get_fingerprint_def render_links_def
          page_id.simps twins_def new_view_def page_id_from_def upt_rec
          MIN_REMOVED_VIEWS_TO_GO_ON_def passes.simps)
  have a: "list_all2 same_page twins (fst (assigned_already twins [0, 1]))"
    by (simp add: assigned_already_def twins_def same_page_def)
  from only_identifier_mutated [OF r a] r a show ?thesis
    by simp
qed

subsection \<open>The dictionary of a pass\<close>

lemma pass_loop_dict_mono:
  "pass_loop R H gs fps m f ws = Inr (gs', fps', m', f') \<Longrightarrow> m k = Some e \<Longrightarrow> m' k = Some e"
proof (induction ws arbitrary: gs fps m f)
  case Nil
  then show ?case by simp
next
  case (Cons x xs)
  show ?case
  proof (cases "m (fingerprint (fps ! x))")
    case None
    with Cons.prems(1) have
      *: "pass_loop R H gs fps (m(fingerprint (fps ! x) \<mapsto> game_view (fps ! x))) (f @ [x]) xs =
         Inr (gs', fps', m', f')"
      by simp
    from None Cons.prems(2) have
      "(m(fingerprint (fps ! x) \<mapsto> game_view (fps ! x))) k = Some e"
      by auto
    from Cons.IH[OF * this] show ?thesis .
  next
    case (Some e')
    with Cons.prems(1) obtain gs1 fps1 where
      "pass_loop R H gs1 fps1 m f xs = Inr (gs', fps', m', f')"
      by (auto simp: Let_def split: option.splits if_splits)
    from Cons.IH[OF this Cons.prems(2)] show ?thesis .
  qed
qed

lemma pass_loop_filtered_subset:
  "pass_loop R H gs fps m f ws = Inr (gs', fps', m', f') \<Longrightarrow> set f' \<subseteq> set f \<union> set ws"
proof (induction ws arbitrary: gs fps m f)
  case Nil
  then show ?case by simp
next
  case (Cons x xs)
  show ?case
  proof (cases "m (fingerprint (fps ! x))")
    case None
    with Cons.prems have
      "pass_loop R H gs fps (m(fingerprint (fps ! x) \<mapsto> game_view (fps ! x))) (f @ [x]) xs =
         Inr (gs', fps', m', f')"
      by simp
    from Cons.IH[OF this] show ?thesis by auto
  next
    case (Some e')
    with Cons.prems obtain gs1 fps1 where
      "pass_loop R H gs1 fps1 m f xs = Inr (gs', fps', m', f')"
      by (auto simp: Let_def split: option.splits if_splits)
    from Cons.IH[OF this] show ?thesis by auto
  qed
qed

lemma pass_loop_head_in_dict:
  assumes "pass_loop R H gs fps m f (a # ys) = Inr (gs', fps', m', f')"
  shows "\<exists>e. m' (fingerprint (fps ! a)) = Some e"
proof (cases "m (fingerprint (fps ! a))")
  case None
  with assms have
    *: "pass_loop R H gs fps (m(fingerprint (fps ! a) \<mapsto> game_view (fps ! a))) (f @ [a]) ys =
       Inr (gs', fps', m', f')"
    by simp
  have "(m(fingerprint (fps ! a) \<mapsto> game_view (fps ! a))) (fingerprint (fps ! a))
          = Some (game_view (fps ! a))"
    by simp
  from pass_loop_dict_mono[OF * this] show ?thesis by blast
next
  case (Some e)
  from pass_loop_dict_mono[OF assms Some] show ?thesis by blast
qed

lemma pass_loop_head_dropped:
  assumes "pass_loop R H gs fps m f (b # zs) = Inr (gs', fps', m', f')"
    and "m (fingerprint (fps ! b)) = Some e"
  shows "set f' \<subseteq> set f \<union> set zs"
proof -
  from assms obtain gs1 fps1 where
    "pass_loop R H gs1 fps1 m f zs = Inr (gs', fps', m', f')"
    by (auto simp: Let_def split: option.splits if_splits)
  then show ?thesis by (rule pass_loop_filtered_subset)
qed

subsection \<open>Running the reducer on its own output\<close>

lemma map_nth_upt: "map (\<lambda>i. g (xs ! i)) [0..<length xs] = map g xs"
  by (rule nth_equalityI) simp_all

lemma incoming_update_fields:
  "ja < length fps \<Longrightarrow>
   game_view (fps[j := (fps ! j)\<lparr>incoming_pages := x\<rparr>] ! ja) = game_view (fps ! ja) \<and>
   fingerprint (fps[j := (fps ! j)\<lparr>incoming_pages := x\<rparr>] ! ja) = fingerprint (fps ! ja)"
  by (cases "j = ja") simp_all

lemma add_incoming_fields:
  "add_incoming gs d i ts fps = Inr fps' \<Longrightarrow>
   length fps' = length fps \<and>
   (\<forall>j<length fps. game_view (fps' ! j) = game_view (fps ! j) \<and>
                    fingerprint (fps' ! j) = fingerprint (fps ! j))"
proof (induction gs d i ts fps rule: add_incoming.induct)
  case (1 gs d i fps)
  then show ?case by simp
next
  case (2 gs d i ts fps)
  then show ?case by simp
next
  case (3 gs d i t ts fps)
  from "3.prems" obtain k j where k: "page_id gs t = Some k" and j: "d k = Some j"
    and *: "add_incoming gs d i ts
              (fps[j := (fps ! j)\<lparr>incoming_pages := incoming_pages (fps ! j) @ [i]\<rparr>]) = Inr fps'"
    by (auto split: option.splits)
  from "3.IH"[OF k j *] show ?case
    by (simp add: incoming_update_fields)
qed

lemma set_incoming_pages_fields:
  "set_incoming_pages gs d vs i fps = Inr fps' \<Longrightarrow>
   length fps' = length fps \<and>
   (\<forall>j<length fps. game_view (fps' ! j) = game_view (fps ! j) \<and>
                    fingerprint (fps' ! j) = fingerprint (fps ! j))"
proof (induction gs d vs i fps rule: set_incoming_pages.induct)
  case (1 gs d i fps)
  then show ?case by simp
next
  case (2 gs d v vs i fps)
  from "2.prems" obtain fps1 where
    a: "add_incoming gs d i (map snd (actions (gs ! v))) fps = Inr fps1"
    and s: "set_incoming_pages gs d vs (Suc i) fps1 = Inr fps'"
    by (auto split: sum.splits)
  from add_incoming_fields[OF a] "2.IH"[OF a s] show ?case
    by simp
qed

lemma build_fingerprinted_pages_fields:
  assumes "build_fingerprinted_pages R H gs game_views = Inr fps"
  shows "map game_view fps = game_views"
    and "map fingerprint fps = map (compute_fingerprint R H gs) game_views"
proof -
  from assms obtain d where
    "set_incoming_pages gs d game_views 0 (map (FingerprintedPage R H gs) game_views) = Inr fps"
    by (auto simp: build_fingerprinted_pages_def Let_def split: sum.splits)
  from set_incoming_pages_fields[OF this] have
    l: "length fps = length game_views"
    and f: "\<And>j. j < length game_views \<Longrightarrow>
          game_view (fps ! j) = game_views ! j \<and>
          fingerprint (fps ! j) = compute_fingerprint R H gs (game_views ! j)"
    by (simp_all add: FingerprintedPage_def)
  from l f show "map game_view fps = game_views"
    by (simp add: list_eq_iff_nth_eq)
  from l f show "map fingerprint fps = map (compute_fingerprint R H gs) game_views"
    by (simp add: list_eq_iff_nth_eq)
qed

text \<open>
  C6. Running the reducer again on its own output should remove no page; it removes one,
  also when the first run ends on a pass that removes nothing. On the 57 pages of
  \<open>chained\<close> the first run makes three passes: the first two remove 26 pages each and
  the third removes none. Page 0 links to page 4, which the first pass redirects to page
  3, which the second pass redirects to page 2: the fingerprint of page 0 is computed
  again in the first pass, not in the second, since \<open>incoming_pages\<close> holds the pages
  that link to a page directly. When the third pass starts, the fingerprint stored for
  page 0 is no longer the fingerprint of its trace, which is the one of page 1; the third
  pass keeps both, and the run on the output of the first run merges them.
\<close>

theorem converged_run_not_idempotent:
  "map_option
     (\<lambda>(gs, fps, ws, p, t).
        (ws, p, t, fingerprint (fps ! 0), compute_fingerprint render_links id gs 0,
         compute_fingerprint render_links id gs 1))
     (case build_fingerprinted_pages render_links id chained [0..<57] of
        Inl e \<Rightarrow> None
      | Inr fps \<Rightarrow> pass_state render_links id True 2 chained fps [0..<57] 1 0) =
     Some ([0, 1, 2, 5, 31], 3, 52, [(5, [(''a'', Some 4)])], [(5, [(''a'', Some 3)])],
           [(5, [(''a'', Some 3)])]) \<and>
   map_sum id (\<lambda>r. (views r, percent_removed r, next_pass_number r))
     (reduce_views assigned_already render_links id chained [0..<57] True) =
     Inr ([0, 1, 2, 5, 31], 5200 / 57, 4) \<and>
   map_sum id (\<lambda>r. (views r, percent_removed r, next_pass_number r))
     (reduce_again assigned_already render_links id chained [0..<57] True) =
     Inr ([0, 2, 5, 31], 20, 2)"
  by code_simp

subsection \<open>Determinism\<close>

lemma recompute_incoming_length [simp]:
  "length (recompute_incoming R H gs js fps) = length fps"
  by (induction js arbitrary: fps) simp_all

lemma pass_loop_length:
  "pass_loop R H gs fps m f ws = Inr (gs', fps', m', f') \<Longrightarrow> length fps' = length fps"
proof (induction ws arbitrary: gs fps m f)
  case Nil
  then show ?case by simp
next
  case (Cons x xs)
  show ?case
  proof (cases "m (fingerprint (fps ! x))")
    case None
    with Cons.prems have
      "pass_loop R H gs fps (m(fingerprint (fps ! x) \<mapsto> game_view (fps ! x))) (f @ [x]) xs =
         Inr (gs', fps', m', f')"
      by simp
    from Cons.IH[OF this] show ?thesis .
  next
    case (Some e)
    with Cons.prems obtain gs1 where
      "pass_loop R H gs1 (recompute_incoming R H gs1 (incoming_pages (fps ! x)) fps) m f xs =
         Inr (gs', fps', m', f')"
      by (auto simp: Let_def split: option.splits if_splits)
    from Cons.IH[OF this] show ?thesis by simp
  qed
qed

lemma recompute_incoming_agree:
  "list_all2 (pages_agree H1 H2) fps1 fps2 \<Longrightarrow>
   list_all2 (pages_agree H1 H2)
     (recompute_incoming R H1 gs js fps1) (recompute_incoming R H2 gs js fps2)"
proof (induction js arbitrary: fps1 fps2)
  case Nil
  then show ?case by simp
next
  case (Cons j js)
  let ?u1 = "fps1[j := (fps1 ! j)\<lparr>fingerprint := compute_fingerprint R H1 gs (game_view (fps1 ! j))\<rparr>]"
  let ?u2 = "fps2[j := (fps2 ! j)\<lparr>fingerprint := compute_fingerprint R H2 gs (game_view (fps2 ! j))\<rparr>]"
  have "list_all2 (pages_agree H1 H2) ?u1 ?u2"
  proof (cases "j < length fps1")
    case True
    with Cons.prems have "pages_agree H1 H2 (fps1 ! j) (fps2 ! j)"
      by (simp add: list_all2_nthD)
    then have "pages_agree H1 H2
        ((fps1 ! j)\<lparr>fingerprint := compute_fingerprint R H1 gs (game_view (fps1 ! j))\<rparr>)
        ((fps2 ! j)\<lparr>fingerprint := compute_fingerprint R H2 gs (game_view (fps2 ! j))\<rparr>)"
      by (auto simp: pages_agree_def fingerprints_agree_def compute_fingerprint_def
            get_fingerprint_def)
    with Cons.prems show ?thesis
      by (rule list_all2_update_cong)
  next
    case False
    moreover from Cons.prems have "length fps2 = length fps1"
      by (simp add: list_all2_lengthD)
    ultimately show ?thesis using Cons.prems
      by (simp add: list_update_beyond)
  qed
  from Cons.IH[OF this] show ?case by simp
qed

lemma dicts_agree_update:
  assumes "same_collisions H1 H2" and "dicts_agree H1 H2 m1 m2"
  shows "dicts_agree H1 H2 (m1(H1 t \<mapsto> v)) (m2(H2 t \<mapsto> v))"
  using assms unfolding dicts_agree_def same_collisions_def by auto

lemma pass_loop_agree:
  assumes "same_collisions H1 H2"
  shows "list_all2 (pages_agree H1 H2) fps1 fps2 \<Longrightarrow> dicts_agree H1 H2 m1 m2 \<Longrightarrow>
   \<forall>i\<in>set ws. i < length fps1 \<Longrightarrow>
   rel_sum (=)
     (\<lambda>(g1, p1, d1, f1) (g2, p2, d2, f2).
        g1 = g2 \<and> f1 = f2 \<and> list_all2 (pages_agree H1 H2) p1 p2 \<and> dicts_agree H1 H2 d1 d2)
     (pass_loop R H1 gs fps1 m1 f ws) (pass_loop R H2 gs fps2 m2 f ws)"
proof (induction ws arbitrary: gs fps1 fps2 m1 m2 f)
  case Nil
  then show ?case by simp
next
  case (Cons x xs)
  from Cons.prems have pa: "pages_agree H1 H2 (fps1 ! x) (fps2 ! x)"
    by (simp add: list_all2_nthD)
  then obtain t where t: "fingerprint (fps1 ! x) = H1 t" "fingerprint (fps2 ! x) = H2 t"
    and gv: "game_view (fps2 ! x) = game_view (fps1 ! x)"
    and inc: "incoming_pages (fps2 ! x) = incoming_pages (fps1 ! x)"
    by (auto simp: pages_agree_def fingerprints_agree_def)
  from Cons.prems(2) t have look: "m2 (fingerprint (fps2 ! x)) = m1 (fingerprint (fps1 ! x))"
    by (simp add: dicts_agree_def)
  from Cons.prems(3) have bound: "\<forall>i\<in>set xs. i < length fps1"
    by simp
  show ?case
  proof (cases "m1 (fingerprint (fps1 ! x))")
    case None
    from dicts_agree_update[OF assms Cons.prems(2), of t "game_view (fps1 ! x)"] t gv have
      "dicts_agree H1 H2 (m1(fingerprint (fps1 ! x) \<mapsto> game_view (fps1 ! x)))
         (m2(fingerprint (fps2 ! x) \<mapsto> game_view (fps2 ! x)))"
      by simp
    moreover from None have
      "pass_loop R H1 gs fps1 m1 f (x # xs) =
         pass_loop R H1 gs fps1 (m1(fingerprint (fps1 ! x) \<mapsto> game_view (fps1 ! x)))
           (f @ [x]) xs"
      by simp
    moreover from None look have
      "pass_loop R H2 gs fps2 m2 f (x # xs) =
         pass_loop R H2 gs fps2 (m2(fingerprint (fps2 ! x) \<mapsto> game_view (fps2 ! x)))
           (f @ [x]) xs"
      by simp
    ultimately show ?thesis
      using Cons.IH[OF Cons.prems(1) _ bound, of _ _ gs "f @ [x]"] by (simp only:)
  next
    case (Some e)
    show ?thesis
    proof (cases "page_id gs (game_view (fps1 ! x))")
      case None
      with Some look gv show ?thesis by simp
    next
      case a: (Some a)
      show ?thesis
      proof (cases "page_id gs e")
        case None
        with Some look gv a show ?thesis by simp
      next
        case b: (Some b)
        show ?thesis
        proof (cases "a = b")
          case True
          with Some look gv a b show ?thesis by simp
        next
          case False
          let ?gs = "page_id_from gs (game_view (fps1 ! x)) e"
          from recompute_incoming_agree[OF Cons.prems(1)] have
            r: "list_all2 (pages_agree H1 H2)
                 (recompute_incoming R H1 ?gs (incoming_pages (fps1 ! x)) fps1)
                 (recompute_incoming R H2 ?gs (incoming_pages (fps1 ! x)) fps2)" .
          from bound have
            "\<forall>i\<in>set xs. i < length (recompute_incoming R H1 ?gs (incoming_pages (fps1 ! x)) fps1)"
            by simp
          from Cons.IH[OF r Cons.prems(2) this, of ?gs f] Some look gv inc a b False
          show ?thesis by (simp add: Let_def)
        qed
      qed
    qed
  qed
qed

lemma passes_agree:
  assumes "same_collisions H1 H2"
  shows "list_all2 (pages_agree H1 H2) fps1 fps2 \<Longrightarrow> \<forall>i\<in>set ws. i < length fps1 \<Longrightarrow>
   rel_sum (=)
     (\<lambda>(g1, p1, w1, n1, t1) (g2, p2, w2, n2, t2).
        g1 = g2 \<and> w1 = w2 \<and> n1 = n2 \<and> t1 = t2 \<and> list_all2 (pages_agree H1 H2) p1 p2 \<and>
        (\<forall>i\<in>set w1. i < length p1))
     (passes R H1 mp gs fps1 ws p t) (passes R H2 mp gs fps2 ws p t)"
proof (induction "length ws" arbitrary: gs fps1 fps2 ws p t rule: less_induct)
  case less
  note pl = pass_loop_agree[OF assms less.prems(1), of Map.empty Map.empty ws R gs "[]"]
  have d: "dicts_agree H1 H2 Map.empty Map.empty"
    by (simp add: dicts_agree_def)
  show ?case
  proof (cases "pass_loop R H1 gs fps1 Map.empty [] ws")
    case (Inl e)
    with pl[OF d less.prems(2)] have "pass_loop R H2 gs fps2 Map.empty [] ws = Inl e"
      by (cases "pass_loop R H2 gs fps2 Map.empty [] ws") simp_all
    with Inl show ?thesis
      by (simp add: passes.simps)
  next
    case (Inr res1)
    obtain g1 p1 d1 f1 where res1: "res1 = (g1, p1, d1, f1)"
      by (cases res1)
    with Inr have r1: "pass_loop R H1 gs fps1 Map.empty [] ws = Inr (g1, p1, d1, f1)"
      by simp
    with pl[OF d less.prems(2)] obtain p2 d2 where
      r2: "pass_loop R H2 gs fps2 Map.empty [] ws = Inr (g1, p2, d2, f1)"
      and pa: "list_all2 (pages_agree H1 H2) p1 p2"
      by (cases "pass_loop R H2 gs fps2 Map.empty [] ws") auto
    from pass_loop_filtered_subset[OF r1] pass_loop_length[OF r1] less.prems(2) have
      b: "\<forall>i\<in>set f1. i < length p1"
      by auto
    let ?r = "int (length ws) - int (length f1)"
    show ?thesis
    proof (cases "?r = 0 \<or> \<not> mp \<or> ?r < MIN_REMOVED_VIEWS_TO_GO_ON")
      case True
      then have "passes R H1 mp gs fps1 ws p t = Inr (g1, p1, f1, p + 1, t + ?r)"
        "passes R H2 mp gs fps2 ws p t = Inr (g1, p2, f1, p + 1, t + ?r)"
        using r1 r2 by (simp_all add: passes.simps[of _ _ _ _ _ ws])
      with pa b show ?thesis by simp
    next
      case False
      then have e: "passes R H1 mp gs fps1 ws p t = passes R H1 mp g1 p1 f1 (p + 1) (t + ?r)"
        "passes R H2 mp gs fps2 ws p t = passes R H2 mp g1 p2 f1 (p + 1) (t + ?r)"
        using r1 r2 by (simp_all add: passes.simps[of _ _ _ _ _ ws])
      from False have "length f1 < length ws"
        by (simp add: MIN_REMOVED_VIEWS_TO_GO_ON_def)
      from less.hyps[OF this pa b] e show ?thesis
        by (simp only:)
    qed
  qed
qed

lemma add_incoming_agree:
  "list_all2 (pages_agree H1 H2) fps1 fps2 \<Longrightarrow>
   rel_sum (=) (list_all2 (pages_agree H1 H2))
     (add_incoming gs d i ts fps1) (add_incoming gs d i ts fps2)"
proof (induction gs d i ts fps1 arbitrary: fps2 rule: add_incoming.induct)
  case (1 gs d i fps)
  then show ?case by simp
next
  case (2 gs d i ts fps)
  then show ?case by simp
next
  case (3 gs d i t ts fps1)
  show ?case
  proof (cases "page_id gs t")
    case None
    then show ?thesis by simp
  next
    case k: (Some k)
    show ?thesis
    proof (cases "d k")
      case None
      with k show ?thesis by simp
    next
      case (Some j)
      let ?u1 = "fps1[j := (fps1 ! j)\<lparr>incoming_pages := incoming_pages (fps1 ! j) @ [i]\<rparr>]"
      let ?u2 = "fps2[j := (fps2 ! j)\<lparr>incoming_pages := incoming_pages (fps2 ! j) @ [i]\<rparr>]"
      have "list_all2 (pages_agree H1 H2) ?u1 ?u2"
      proof (cases "j < length fps1")
        case True
        with "3.prems" have "pages_agree H1 H2 (fps1 ! j) (fps2 ! j)"
          by (simp add: list_all2_nthD)
        then have "pages_agree H1 H2
            ((fps1 ! j)\<lparr>incoming_pages := incoming_pages (fps1 ! j) @ [i]\<rparr>)
            ((fps2 ! j)\<lparr>incoming_pages := incoming_pages (fps2 ! j) @ [i]\<rparr>)"
          by (simp add: pages_agree_def)
        with "3.prems" show ?thesis
          by (rule list_all2_update_cong)
      next
        case False
        moreover from "3.prems" have "length fps2 = length fps1"
          by (simp add: list_all2_lengthD)
        ultimately show ?thesis using "3.prems"
          by (simp add: list_update_beyond)
      qed
      from "3.IH"[OF k Some this] k Some show ?thesis by simp
    qed
  qed
qed

lemma set_incoming_pages_agree:
  "list_all2 (pages_agree H1 H2) fps1 fps2 \<Longrightarrow>
   rel_sum (=) (list_all2 (pages_agree H1 H2))
     (set_incoming_pages gs d vs i fps1) (set_incoming_pages gs d vs i fps2)"
proof (induction vs arbitrary: i fps1 fps2)
  case Nil
  then show ?case by simp
next
  case (Cons v vs)
  note a = add_incoming_agree[OF Cons.prems, of gs d i "map snd (actions (gs ! v))"]
  show ?case
  proof (cases "add_incoming gs d i (map snd (actions (gs ! v))) fps1")
    case (Inl e)
    with a have "add_incoming gs d i (map snd (actions (gs ! v))) fps2 = Inl e"
      by (cases "add_incoming gs d i (map snd (actions (gs ! v))) fps2") simp_all
    with Inl show ?thesis by simp
  next
    case (Inr q1)
    with a obtain q2 where
      q2: "add_incoming gs d i (map snd (actions (gs ! v))) fps2 = Inr q2"
      and "list_all2 (pages_agree H1 H2) q1 q2"
      by (cases "add_incoming gs d i (map snd (actions (gs ! v))) fps2") simp_all
    from Cons.IH[OF this(2), of "Suc i"] Inr q2 show ?thesis by simp
  qed
qed

lemma build_fingerprinted_pages_agree:
  "rel_sum (=) (list_all2 (pages_agree H1 H2))
     (build_fingerprinted_pages R H1 gs game_views)
     (build_fingerprinted_pages R H2 gs game_views)"
proof -
  have "list_all2 (pages_agree H1 H2)
          (map (FingerprintedPage R H1 gs) game_views)
          (map (FingerprintedPage R H2 gs) game_views)"
    by (auto simp: list_all2_conv_all_nth pages_agree_def fingerprints_agree_def
          FingerprintedPage_def compute_fingerprint_def get_fingerprint_def)
  then show ?thesis
    by (cases "fp_pages_per_page_id gs game_views 0 Map.empty")
       (simp_all add: build_fingerprinted_pages_def set_incoming_pages_agree)
qed

text \<open>
  C3. A run is a function of the views, their identifiers and the flag; the one thing
  that differs between two runs of the program is the hash function of Python, which is
  seeded anew in every process. Two runs whose hash functions collide on the same traces
  (in particular, two that never collide) return the same: the same views in the same
  order, the same identifiers, the same percentage, the same number of passes.
\<close>

theorem reduce_views_deterministic:
  assumes "same_collisions H1 H2"
  shows "reduce_views assign R H1 gs0 game_views0 multipass =
         reduce_views assign R H2 gs0 game_views0 multipass"
proof -
  obtain gs game_views where a: "assign gs0 game_views0 = (gs, game_views)"
    by (cases "assign gs0 game_views0")
  note b = build_fingerprinted_pages_agree[of H1 H2 R gs game_views]
  show ?thesis
  proof (cases "build_fingerprinted_pages R H1 gs game_views")
    case (Inl e)
    with b have "build_fingerprinted_pages R H2 gs game_views = Inl e"
      by (cases "build_fingerprinted_pages R H2 gs game_views") simp_all
    with Inl a show ?thesis
      by (simp add: reduce_views_def)
  next
    case (Inr fps1)
    with b obtain fps2 where
      fps2: "build_fingerprinted_pages R H2 gs game_views = Inr fps2"
      and pa: "list_all2 (pages_agree H1 H2) fps1 fps2"
      by (cases "build_fingerprinted_pages R H2 gs game_views") simp_all
    from pa have l: "length fps2 = length fps1"
      by (simp add: list_all2_lengthD)
    have "\<forall>i\<in>set [0..<length fps1]. i < length fps1"
      by simp
    note p = passes_agree[OF assms pa this, of R multipass gs 1 0]
    show ?thesis
    proof (cases "passes R H1 multipass gs fps1 [0..<length fps1] 1 0")
      case e: (Inl e)
      with p have "passes R H2 multipass gs fps2 [0..<length fps1] 1 0 = Inl e"
        by (cases "passes R H2 multipass gs fps2 [0..<length fps1] 1 0") simp_all
      with e a Inr fps2 l show ?thesis
        by (simp add: reduce_views_def)
    next
      case r: (Inr res1)
      obtain g1 p1 w1 n1 t1 where res1: "res1 = (g1, p1, w1, n1, t1)"
        by (cases res1)
      with r p obtain p2 where
        r2: "passes R H2 multipass gs fps2 [0..<length fps1] 1 0 = Inr (g1, p2, w1, n1, t1)"
        and pa': "list_all2 (pages_agree H1 H2) p1 p2"
        and bd: "\<forall>i\<in>set w1. i < length p1"
        by (cases "passes R H2 multipass gs fps2 [0..<length fps1] 1 0") auto
      from pa' bd have "map (\<lambda>i. game_view (p1 ! i)) w1 = map (\<lambda>i. game_view (p2 ! i)) w1"
        by (auto simp: list_all2_conv_all_nth pages_agree_def)
      with r res1 r2 a Inr fps2 l show ?thesis
        by (simp add: reduce_views_def)
    qed
  qed
qed

theorem reduce_views_deterministic_witness:
  "same_collisions (id :: (nat \<times> (string \<times> nat option) list) list \<Rightarrow> _) with_length \<and>
   reduce_views assigned_already render_links id diamond [0, 1, 2, 3] True =
     Inr \<lparr>views = [0, 1, 3], heap = page_id_from diamond 2 0, percent_removed = 25,
          next_pass_number = 2\<rparr> \<and>
   reduce_views assigned_already render_links with_length diamond [0, 1, 2, 3] True =
     Inr \<lparr>views = [0, 1, 3], heap = page_id_from diamond 2 0, percent_removed = 25,
          next_pass_number = 2\<rparr>"
proof -
  have c: "same_collisions (id :: (nat \<times> (string \<times> nat option) list) list \<Rightarrow> _) with_length"
    by (auto simp: same_collisions_def with_length_def)
  have r: "reduce_views assigned_already render_links id diamond [0, 1, 2, 3] True =
     Inr \<lparr>views = [0, 1, 3], heap = page_id_from diamond 2 0, percent_removed = 25,
          next_pass_number = 2\<rparr>"
    by (simp add: reduce_views_def assigned_already_def build_fingerprinted_pages_def
        FingerprintedPage_def compute_fingerprint_def get_fingerprint_def render_links_def
        page_id.simps diamond_def new_view_def page_id_from_def upt_rec
        MIN_REMOVED_VIEWS_TO_GO_ON_def passes.simps)
  from reduce_views_deterministic
         [OF c, of assigned_already render_links diamond "[0, 1, 2, 3]" True] c r
  show ?thesis
    by simp
qed

subsection \<open>References between the surviving pages\<close>

lemma page_id_root:
  "v < length gs \<Longrightarrow> page_id_source (gs ! v) = None \<Longrightarrow>
   page_id gs v = Some (assigned_page_id (gs ! v))"
  by (subst page_id.simps) simp

lemma page_id_from_length [simp]: "length (page_id_from gs a e) = length gs"
  by (simp add: page_id_from_def)

lemma page_id_from_other: "v \<noteq> a \<Longrightarrow> page_id_from gs a e ! v = gs ! v"
  by (simp add: page_id_from_def)

lemma page_id_from_assigned_nth:
  "v < length gs \<Longrightarrow> assigned_page_id (page_id_from gs a e ! v) = assigned_page_id (gs ! v)"
  by (cases "v = a") (simp_all add: page_id_from_def)

lemma page_id_from_assigned [simp]:
  "map assigned_page_id (page_id_from gs a e) = map assigned_page_id gs"
  by (rule nth_equalityI) (simp_all add: page_id_from_assigned_nth)

lemma page_id_after_redirect:
  assumes "page_id gs v = Some k"
    and "a < length gs" and "e < length gs" and "a \<noteq> e"
    and "page_id_source (gs ! a) = None" and "page_id_source (gs ! e) = None"
    and "distinct (map assigned_page_id gs)"
  shows "page_id (page_id_from gs a e) v =
           Some (if k = assigned_page_id (gs ! a) then assigned_page_id (gs ! e) else k)"
proof -
  let ?gs = "page_id_from gs a e"
  have e: "page_id ?gs e = Some (assigned_page_id (gs ! e))"
    using assms(3,4,6) by (simp add: page_id_root page_id_from_other)
  have a: "page_id ?gs a = Some (assigned_page_id (gs ! e))"
    using assms(2) e by (subst page_id.simps) (simp add: page_id_from_def)
  have "\<And>gs' v k. page_id gs' v = Some k \<Longrightarrow> gs' = gs \<longrightarrow>
          page_id ?gs v =
            Some (if k = assigned_page_id (gs ! a) then assigned_page_id (gs ! e) else k)"
  proof (erule page_id.raw_induct[rotated])
    fix pid gs' v k
    assume ih: "\<And>gs' v k. pid gs' v = Some k \<Longrightarrow> gs' = gs \<longrightarrow>
          page_id ?gs v =
            Some (if k = assigned_page_id (gs ! a) then assigned_page_id (gs ! e) else k)"
      and step: "(if v < length gs'
                  then case page_id_source (gs' ! v) of
                         None \<Rightarrow> Some (assigned_page_id (gs' ! v))
                       | Some w \<Rightarrow> pid gs' w
                  else None) = Some k"
    show "gs' = gs \<longrightarrow> page_id ?gs v =
            Some (if k = assigned_page_id (gs ! a) then assigned_page_id (gs ! e) else k)"
    proof
      assume g: "gs' = gs"
      with step have v: "v < length gs"
        by (simp split: if_splits)
      show "page_id ?gs v =
            Some (if k = assigned_page_id (gs ! a) then assigned_page_id (gs ! e) else k)"
      proof (cases "page_id_source (gs ! v)")
        case None
        with step g v have k: "k = assigned_page_id (gs ! v)"
          by simp
        show ?thesis
        proof (cases "v = a")
          case True
          with k a show ?thesis by simp
        next
          case False
          with v assms(2,7) have "assigned_page_id (gs ! v) \<noteq> assigned_page_id (gs ! a)"
            by (simp add: distinct_conv_nth)
          moreover from False v None have "page_id ?gs v = Some (assigned_page_id (gs ! v))"
            by (simp add: page_id_root page_id_from_other)
          ultimately show ?thesis using k by simp
        qed
      next
        case (Some w)
        with assms(5) have va: "v \<noteq> a"
          by auto
        from Some step g v have "pid gs w = Some k"
          by simp
        from ih[OF this] have "page_id ?gs w =
            Some (if k = assigned_page_id (gs ! a) then assigned_page_id (gs ! e) else k)"
          by simp
        moreover from va v Some have "page_id ?gs v = page_id ?gs w"
          by (subst page_id.simps) (simp add: page_id_from_other)
        ultimately show ?thesis by simp
      qed
    qed
  qed
  from this[OF assms(1)] show ?thesis by simp
qed

lemma fingerprint_update_game_view:
  "map game_view (fps[j := (fps ! j)\<lparr>fingerprint := x\<rparr>]) = map game_view fps"
proof (rule nth_equalityI)
  show "length (map game_view (fps[j := (fps ! j)\<lparr>fingerprint := x\<rparr>])) =
        length (map game_view fps)"
    by simp
next
  fix i
  assume "i < length (map game_view (fps[j := (fps ! j)\<lparr>fingerprint := x\<rparr>]))"
  then show "map game_view (fps[j := (fps ! j)\<lparr>fingerprint := x\<rparr>]) ! i =
             map game_view fps ! i"
    by (cases "j = i") simp_all
qed

lemma recompute_incoming_game_view:
  "map game_view (recompute_incoming R H gs js fps) = map game_view fps"
  by (induction js arbitrary: fps) (simp_all add: fingerprint_update_game_view)

lemma pass_invariant_views: "pass_invariant gs gvs fps m f ws \<Longrightarrow> map game_view fps = gvs"
  by (simp add: pass_invariant_def)

lemma pass_invariant_distinct_views: "pass_invariant gs gvs fps m f ws \<Longrightarrow> distinct gvs"
  by (simp add: pass_invariant_def)

lemma pass_invariant_in_heap:
  "pass_invariant gs gvs fps m f ws \<Longrightarrow> v \<in> set gvs \<Longrightarrow> v < length gs"
  by (simp add: pass_invariant_def)

lemma pass_invariant_ids:
  "pass_invariant gs gvs fps m f ws \<Longrightarrow> distinct (map assigned_page_id gs)"
  by (simp add: pass_invariant_def)

lemma pass_invariant_distinct: "pass_invariant gs gvs fps m f ws \<Longrightarrow> distinct (f @ ws)"
  by (simp add: pass_invariant_def)

lemma pass_invariant_roots:
  "pass_invariant gs gvs fps m f ws \<Longrightarrow> i \<in> set (f @ ws) \<Longrightarrow>
   i < length fps \<and> page_id_source (gs ! (gvs ! i)) = None"
  by (simp add: pass_invariant_def)

lemma pass_invariant_resolved:
  "pass_invariant gs gvs fps m f ws \<Longrightarrow> v \<in> set gvs \<Longrightarrow>
   \<exists>i\<in>set (f @ ws). page_id gs v = Some (assigned_page_id (gs ! (gvs ! i)))"
  by (simp add: pass_invariant_def)

lemma pass_invariant_dict:
  "pass_invariant gs gvs fps m f ws \<Longrightarrow> m k = Some e \<Longrightarrow> \<exists>j\<in>set f. e = gvs ! j"
  by (simp add: pass_invariant_def)

lemma pass_invariant_keep:
  assumes "pass_invariant gs gvs fps m f (x # xs)"
  shows "pass_invariant gs gvs fps (m(k \<mapsto> game_view (fps ! x))) (f @ [x]) xs"
proof -
  from assms have "map game_view fps = gvs" and "x < length fps"
    by (simp_all add: pass_invariant_def)
  then have "game_view (fps ! x) = gvs ! x"
    by (metis nth_map)
  with assms show ?thesis
    unfolding pass_invariant_def by (auto split: if_splits)
qed

lemma pass_invariant_merge:
  assumes inv: "pass_invariant gs gvs fps m f (x # xs)"
    and look: "m (fingerprint (fps ! x)) = Some e"
  shows "\<exists>a b. page_id gs (game_view (fps ! x)) = Some a \<and> page_id gs e = Some b \<and> a \<noteq> b"
    and "map game_view fps' = map game_view fps \<Longrightarrow>
         pass_invariant (page_id_from gs (game_view (fps ! x)) e) gvs fps' m f xs"
proof -
  note gvmap = pass_invariant_views[OF inv] and dg = pass_invariant_distinct_views[OF inv]
    and ing = pass_invariant_in_heap[OF inv] and ids = pass_invariant_ids[OF inv]
    and dl = pass_invariant_distinct[OF inv] and roots = pass_invariant_roots[OF inv]
    and res = pass_invariant_resolved[OF inv] and dict = pass_invariant_dict[OF inv]
  from gvmap have len: "length fps = length gvs"
    by auto
  let ?a = "gvs ! x"
  from roots[of x] have x: "x < length fps" and ra: "page_id_source (gs ! ?a) = None"
    by simp_all
  with gvmap have a: "game_view (fps ! x) = ?a"
    by (metis nth_map)
  from dict[OF look] obtain j where j: "j \<in> set f" and e: "e = gvs ! j"
    by blast
  from roots[of j] j have jl: "j < length fps" and re: "page_id_source (gs ! e) = None"
    by (simp_all add: e)
  from dl j have jx: "j \<noteq> x"
    by auto
  with dg x jl len have ae: "?a \<noteq> e"
    by (simp add: e nth_eq_iff_index_eq)
  from x jl len have al: "?a < length gs" and el: "e < length gs"
    by (simp_all add: e ing)
  from ids al el ae have idne: "assigned_page_id (gs ! ?a) \<noteq> assigned_page_id (gs ! e)"
    by (simp add: distinct_conv_nth)
  from al ra el re idne a
  show "\<exists>a b. page_id gs (game_view (fps ! x)) = Some a \<and> page_id gs e = Some b \<and> a \<noteq> b"
    by (simp add: page_id_root)
  assume same: "map game_view fps' = map game_view fps"
  then have len': "length fps' = length fps"
    by (metis length_map)
  let ?gs = "page_id_from gs ?a e"
  have roots': "\<forall>i\<in>set (f @ xs). i < length fps' \<and> page_id_source (?gs ! (gvs ! i)) = None"
  proof
    fix i
    assume i: "i \<in> set (f @ xs)"
    with dl have "i \<noteq> x"
      by auto
    moreover from i roots[of i] have il: "i < length fps"
      and "page_id_source (gs ! (gvs ! i)) = None"
      by simp_all
    ultimately show "i < length fps' \<and> page_id_source (?gs ! (gvs ! i)) = None"
      using dg x len len' by (simp add: page_id_from_other nth_eq_iff_index_eq)
  qed
  have res': "\<forall>v\<in>set gvs. \<exists>i\<in>set (f @ xs).
                page_id ?gs v = Some (assigned_page_id (?gs ! (gvs ! i)))"
  proof
    fix v
    assume "v \<in> set gvs"
    from res[OF this] obtain i where i: "i \<in> set (f @ x # xs)"
      and pv: "page_id gs v = Some (assigned_page_id (gs ! (gvs ! i)))"
      by blast
    note after = page_id_after_redirect[OF pv al el ae ra re ids]
    show "\<exists>i\<in>set (f @ xs). page_id ?gs v = Some (assigned_page_id (?gs ! (gvs ! i)))"
    proof (cases "i = x")
      case True
      with after el have "page_id ?gs v = Some (assigned_page_id (?gs ! (gvs ! j)))"
        by (simp add: page_id_from_assigned_nth e)
      with j show ?thesis by auto
    next
      case False
      from roots[OF i] have il: "i < length fps"
        by simp
      with False dg x len have "gvs ! i \<noteq> ?a"
        by (simp add: nth_eq_iff_index_eq)
      moreover from il len have gl: "gvs ! i < length gs"
        by (simp add: ing)
      ultimately have "assigned_page_id (gs ! (gvs ! i)) \<noteq> assigned_page_id (gs ! ?a)"
        using ids al by (simp add: distinct_conv_nth)
      with after gl have "page_id ?gs v = Some (assigned_page_id (?gs ! (gvs ! i)))"
        by (simp add: page_id_from_assigned_nth)
      with i False show ?thesis by auto
    qed
  qed
  from dl have "distinct (f @ xs)"
    by simp
  with gvmap same dg ing ids roots' res' dict
  show "pass_invariant (page_id_from gs (game_view (fps ! x)) e) gvs fps' m f xs"
    unfolding pass_invariant_def a by simp
qed

lemma pass_loop_invariant:
  "pass_invariant gs gvs fps m f ws \<Longrightarrow>
   \<exists>gs' fps' m' f'. pass_loop R H gs fps m f ws = Inr (gs', fps', m', f') \<and>
      pass_invariant gs' gvs fps' m' f' []"
proof (induction ws arbitrary: gs fps m f)
  case Nil
  then show ?case by simp
next
  case (Cons x xs)
  show ?case
  proof (cases "m (fingerprint (fps ! x))")
    case None
    from Cons.IH[OF pass_invariant_keep[OF Cons.prems, of "fingerprint (fps ! x)"]]
    obtain gs' fps' m' f' where
      "pass_loop R H gs fps (m(fingerprint (fps ! x) \<mapsto> game_view (fps ! x))) (f @ [x]) xs =
         Inr (gs', fps', m', f')"
      and "pass_invariant gs' gvs fps' m' f' []"
      by blast
    moreover from None have
      "pass_loop R H gs fps m f (x # xs) =
         pass_loop R H gs fps (m(fingerprint (fps ! x) \<mapsto> game_view (fps ! x))) (f @ [x]) xs"
      by simp
    ultimately show ?thesis by (simp only:) blast
  next
    case (Some e)
    let ?gs = "page_id_from gs (game_view (fps ! x)) e"
    let ?fps = "recompute_incoming R H ?gs (incoming_pages (fps ! x)) fps"
    from pass_invariant_merge(1)[OF Cons.prems Some] obtain a b where
      ab: "page_id gs (game_view (fps ! x)) = Some a" "page_id gs e = Some b" "a \<noteq> b"
      by blast
    have "pass_invariant ?gs gvs ?fps m f xs"
      by (rule pass_invariant_merge(2)[OF Cons.prems Some]) (rule recompute_incoming_game_view)
    from Cons.IH[OF this] obtain gs' fps' m' f' where
      "pass_loop R H ?gs ?fps m f xs = Inr (gs', fps', m', f')"
      and "pass_invariant gs' gvs fps' m' f' []"
      by blast
    moreover from Some ab have
      "pass_loop R H gs fps m f (x # xs) = pass_loop R H ?gs ?fps m f xs"
      by (simp add: Let_def)
    ultimately show ?thesis by (simp only:) blast
  qed
qed

lemma pass_invariant_next:
  assumes "pass_invariant gs gvs fps m f []"
  shows "pass_invariant gs gvs fps Map.empty [] f"
  using assms unfolding pass_invariant_def by simp

lemma passes_invariant:
  "pass_invariant gs gvs fps Map.empty [] ws \<Longrightarrow>
   \<exists>gs' fps' ws' p' t'. passes R H mp gs fps ws p t = Inr (gs', fps', ws', p', t') \<and>
      pass_invariant gs' gvs fps' Map.empty [] ws'"
proof (induction "length ws" arbitrary: gs fps ws p t rule: less_induct)
  case less
  from pass_loop_invariant[OF less.prems, of R H] obtain gs1 fps1 m1 f1 where
    pl: "pass_loop R H gs fps Map.empty [] ws = Inr (gs1, fps1, m1, f1)"
    and inv: "pass_invariant gs1 gvs fps1 m1 f1 []"
    by blast
  note nx = pass_invariant_next[OF inv]
  let ?r = "int (length ws) - int (length f1)"
  show ?case
  proof (cases "?r = 0 \<or> \<not> mp \<or> ?r < MIN_REMOVED_VIEWS_TO_GO_ON")
    case True
    then have "passes R H mp gs fps ws p t = Inr (gs1, fps1, f1, p + 1, t + ?r)"
      using pl by (simp add: passes.simps[of _ _ _ _ _ ws])
    with nx show ?thesis by blast
  next
    case False
    then have e: "passes R H mp gs fps ws p t = passes R H mp gs1 fps1 f1 (p + 1) (t + ?r)"
      using pl by (simp add: passes.simps[of _ _ _ _ _ ws])
    from False have "length f1 < length ws"
      by (simp add: MIN_REMOVED_VIEWS_TO_GO_ON_def)
    from less.hyps[OF this nx, of "p + 1" "t + ?r"] e show ?thesis
      by (simp only:)
  qed
qed

lemma fresh_views_invariant:
  assumes fresh: "fresh_views gs gvs"
    and built: "build_fingerprinted_pages R H gs gvs = Inr fps"
  shows "pass_invariant gs gvs fps Map.empty [] [0..<length fps]"
proof -
  note f = build_fingerprinted_pages_fields(1)[OF built]
  then have len: "length fps = length gvs"
    by auto
  from fresh have dg: "distinct gvs" and ing: "\<forall>v\<in>set gvs. v < length gs"
    and ids: "distinct (map assigned_page_id gs)"
    and roots: "\<forall>v<length gs. page_id_source (gs ! v) = None"
    by (simp_all add: fresh_views_def list_all_iff list_all_length)
  have "\<forall>v\<in>set gvs. \<exists>i\<in>set ([] @ [0..<length fps]).
          page_id gs v = Some (assigned_page_id (gs ! (gvs ! i)))"
  proof
    fix v
    assume v: "v \<in> set gvs"
    then obtain i where "i < length gvs" and "gvs ! i = v"
      by (auto simp: in_set_conv_nth)
    moreover from v ing roots have "page_id gs v = Some (assigned_page_id (gs ! v))"
      by (simp add: page_id_root)
    ultimately show "\<exists>i\<in>set ([] @ [0..<length fps]).
          page_id gs v = Some (assigned_page_id (gs ! (gvs ! i)))"
      using len by auto
  qed
  moreover have "\<forall>i\<in>set ([] @ [0..<length fps]).
          i < length fps \<and> page_id_source (gs ! (gvs ! i)) = None"
    using len ing roots by simp
  ultimately show ?thesis
    using f dg ing ids unfolding pass_invariant_def by simp
qed

lemma fp_pages_per_page_id_entry:
  "fp_pages_per_page_id gs vs i d0 = Inr d \<Longrightarrow> d k = Some j \<Longrightarrow>
   d0 k = Some j \<or> (i \<le> j \<and> j < i + length vs \<and> page_id gs (vs ! (j - i)) = Some k)"
proof (induction vs arbitrary: i d0)
  case Nil
  then show ?case by simp
next
  case (Cons v vs)
  from Cons.prems(1) obtain k' where k': "page_id gs v = Some k'"
    and *: "fp_pages_per_page_id gs vs (Suc i) (d0(k' \<mapsto> i)) = Inr d"
    by (auto split: option.splits)
  from Cons.IH[OF * Cons.prems(2)] show ?case
  proof
    assume "(d0(k' \<mapsto> i)) k = Some j"
    with k' show ?thesis
      by (auto split: if_splits)
  next
    assume r: "Suc i \<le> j \<and> j < Suc i + length vs \<and> page_id gs (vs ! (j - Suc i)) = Some k"
    then have "j - i = Suc (j - Suc i)"
      by arith
    with r show ?thesis
      by simp
  qed
qed

lemma add_incoming_linked:
  "add_incoming gs d i ts fps = Inr fps' \<Longrightarrow> Some t \<in> set ts \<Longrightarrow>
   \<exists>k j. page_id gs t = Some k \<and> d k = Some j"
proof (induction gs d i ts fps rule: add_incoming.induct)
  case (1 gs d i fps)
  then show ?case by simp
next
  case (2 gs d i ts fps)
  then show ?case by simp
next
  case (3 gs d i t' ts fps)
  from "3.prems"(1) obtain k j where k: "page_id gs t' = Some k" and j: "d k = Some j"
    and *: "add_incoming gs d i ts
              (fps[j := (fps ! j)\<lparr>incoming_pages := incoming_pages (fps ! j) @ [i]\<rparr>]) = Inr fps'"
    by (auto split: option.splits)
  show ?case
  proof (cases "t = t'")
    case True
    with k j show ?thesis by blast
  next
    case False
    with "3.prems"(2) have "Some t \<in> set ts"
      by simp
    from "3.IH"[OF k j * this] show ?thesis .
  qed
qed

lemma set_incoming_pages_linked:
  "set_incoming_pages gs d vs i fps = Inr fps' \<Longrightarrow> v \<in> set vs \<Longrightarrow>
   Some t \<in> set (map snd (actions (gs ! v))) \<Longrightarrow>
   \<exists>k j. page_id gs t = Some k \<and> d k = Some j"
proof (induction gs d vs i fps rule: set_incoming_pages.induct)
  case (1 gs d i fps)
  then show ?case by simp
next
  case (2 gs d u vs i fps)
  from "2.prems"(1) obtain fps1 where
    a: "add_incoming gs d i (map snd (actions (gs ! u))) fps = Inr fps1"
    and s: "set_incoming_pages gs d vs (Suc i) fps1 = Inr fps'"
    by (auto split: sum.splits)
  show ?case
  proof (cases "v = u")
    case True
    with add_incoming_linked[OF a] "2.prems"(3) show ?thesis
      by simp
  next
    case False
    with "2.prems"(2) have "v \<in> set vs"
      by simp
    from "2.IH"[OF a s this "2.prems"(3)] show ?thesis .
  qed
qed

lemma build_links_in_list:
  assumes fresh: "fresh_views gs gvs"
    and built: "build_fingerprinted_pages R H gs gvs = Inr fps"
    and v: "v \<in> set gvs" and t: "(s, Some t) \<in> set (actions (gs ! v))"
  shows "t \<in> set gvs"
proof -
  from built obtain d where d: "fp_pages_per_page_id gs gvs 0 Map.empty = Inr d"
    and si: "set_incoming_pages gs d gvs 0 (map (FingerprintedPage R H gs) gvs) = Inr fps"
    by (auto simp: build_fingerprinted_pages_def Let_def split: sum.splits)
  from t have st: "Some t \<in> set (map snd (actions (gs ! v)))"
    by force
  from set_incoming_pages_linked[OF si v st] obtain k j where
    k: "page_id gs t = Some k" and j: "d k = Some j"
    by blast
  from fp_pages_per_page_id_entry[OF d j] have jl: "j < length gvs"
    and u: "page_id gs (gvs ! j) = Some k"
    by simp_all
  from fresh have ing: "\<forall>v\<in>set gvs. v < length gs"
    and ids: "distinct (map assigned_page_id gs)"
    and roots: "\<forall>v<length gs. page_id_source (gs ! v) = None"
    and refs: "\<forall>g\<in>set gs. \<forall>t\<in>set (map snd (actions g)).
                 case t of None \<Rightarrow> True | Some w \<Rightarrow> w < length gs"
    by (simp_all add: fresh_views_def list_all_iff list_all_length)
  from v ing have "gs ! v \<in> set gs"
    by simp
  with refs st have tl: "t < length gs"
    by force
  from jl ing have ul: "gvs ! j < length gs"
    by simp
  from tl ul roots k u have
    "assigned_page_id (gs ! t) = assigned_page_id (gs ! (gvs ! j))"
    by (simp add: page_id_root)
  with ids tl ul have "t = gvs ! j"
    by (simp add: distinct_conv_nth) (metis nth_map length_map)
  with jl show ?thesis by simp
qed

lemma reduce_views_fresh:
  assumes a: "assign gs0 game_views0 = (gs, gvs)"
    and fresh: "fresh_views gs gvs"
    and run: "reduce_views assign R (H :: 'call list \<Rightarrow> 'fp) gs0 game_views0 multipass = Inr r"
  obtains fps and fps' :: "'fp fingerprinted_page list" and ws'
    where "build_fingerprinted_pages R H gs gvs = Inr fps"
    and "pass_invariant (heap r) gvs fps' Map.empty [] ws'"
    and "views r = map ((!) gvs) ws'"
    and "redirected_only gs (heap r)"
proof -
  from run a obtain fps where b: "build_fingerprinted_pages R H gs gvs = Inr fps"
    by (auto simp: reduce_views_def split: sum.splits)
  from passes_invariant[OF fresh_views_invariant[OF fresh b], of R H multipass 1 0]
  obtain gs' fps' ws' p' t' where
    p: "passes R H multipass gs fps [0..<length fps] 1 0 = Inr (gs', fps', ws', p', t')"
    and inv: "pass_invariant gs' gvs fps' Map.empty [] ws'"
    by blast
  from run a b p have h: "heap r = gs'"
    and v: "views r = map (\<lambda>i. game_view (fps' ! i)) ws'"
    by (auto simp: reduce_views_def split: if_splits)
  have "map (\<lambda>i. game_view (fps' ! i)) ws' = map ((!) gvs) ws'"
  proof (rule map_cong[OF refl])
    fix i
    assume "i \<in> set ws'"
    with pass_invariant_roots[OF inv, of i] have "i < length fps'"
      by simp
    with pass_invariant_views[OF inv] show "game_view (fps' ! i) = gvs ! i"
      by (metis nth_map)
  qed
  with v have vs: "views r = map ((!) gvs) ws'"
    by simp
  from passes_redirected_only[OF p redirected_only_refl] h
  have ro: "redirected_only gs (heap r)"
    by simp
  from inv h have "pass_invariant (heap r) gvs fps' Map.empty [] ws'"
    by simp
  from that[OF b this vs ro] show ?thesis .
qed

text \<open>
  C2. When the run returns on views that are different, not yet redirected and that have
  identifiers of their own, every link of every page returned leads, by the identifiers
  current in the heap returned, to a page returned. During the run the same holds of the
  pages kept and the pages still to look at (\<open>pass_invariant\<close>, \<open>pass_loop_invariant\<close>,
  \<open>passes_invariant\<close>).
\<close>

theorem no_dangling_references:
  assumes run: "reduce_views assign R (H :: 'call list \<Rightarrow> 'fp) gs0 game_views0 multipass = Inr r"
    and fresh: "fresh_views (fst (assign gs0 game_views0)) (snd (assign gs0 game_views0))"
    and v: "v \<in> set (views r)"
    and t: "(s, Some t) \<in> set (actions (heap r ! v))"
  shows "\<exists>w\<in>set (views r). \<exists>k. page_id (heap r) t = Some k \<and> page_id (heap r) w = Some k"
proof -
  obtain gs gvs where a: "assign gs0 game_views0 = (gs, gvs)"
    by (cases "assign gs0 game_views0")
  with fresh have fr: "fresh_views gs gvs"
    by simp
  from a fr run show ?thesis
  proof (rule reduce_views_fresh)
    fix fps and fps' :: "'fp fingerprinted_page list" and ws'
    assume b: "build_fingerprinted_pages R H gs gvs = Inr fps"
      and inv: "pass_invariant (heap r) gvs fps' Map.empty [] ws'"
      and vs: "views r = map ((!) gvs) ws'"
      and ro: "redirected_only gs (heap r)"
    have len: "length fps' = length gvs"
      using pass_invariant_views[OF inv] by (metis length_map)
    from v vs obtain i where i: "i \<in> set ws'" and vi: "v = gvs ! i"
      by auto
    from pass_invariant_roots[OF inv, of i] i len have "i < length gvs"
      by simp
    with vi have vg: "v \<in> set gvs"
      by simp
    with fr have "v < length gs"
      by (simp add: fresh_views_def list_all_iff)
    with ro have "actions (heap r ! v) = actions (gs ! v)"
      by (simp add: redirected_only_def same_page_def list_all2_conv_all_nth)
    with t have "(s, Some t) \<in> set (actions (gs ! v))"
      by simp
    from build_links_in_list[OF fr b vg this] have "t \<in> set gvs" .
    from pass_invariant_resolved[OF inv this] obtain j where j: "j \<in> set ws'"
      and pt: "page_id (heap r) t = Some (assigned_page_id (heap r ! (gvs ! j)))"
      by auto
    from pass_invariant_roots[OF inv, of j] j len have
      jl: "j < length gvs" and root: "page_id_source (heap r ! (gvs ! j)) = None"
      by simp_all
    from jl pass_invariant_in_heap[OF inv, of "gvs ! j"] have "gvs ! j < length (heap r)"
      by simp
    with root have
      pw: "page_id (heap r) (gvs ! j) = Some (assigned_page_id (heap r ! (gvs ! j)))"
      by (simp add: page_id_root)
    from j vs have "gvs ! j \<in> set (views r)"
      by simp
    with pt pw show ?thesis
      by blast
  qed
qed

theorem no_dangling_references_witness:
  "reduce_views assigned_already render_links id diamond [0, 1, 2, 3] True =
     Inr \<lparr>views = [0, 1, 3], heap = page_id_from diamond 2 0, percent_removed = 25,
          next_pass_number = 2\<rparr> \<and>
   fresh_views (fst (assigned_already diamond [0, 1, 2, 3]))
     (snd (assigned_already diamond [0, 1, 2, 3])) \<and>
   (1::nat) \<in> set [0, 1, 3] \<and>
   (''a'', Some 2) \<in> set (actions (page_id_from diamond 2 0 ! 1)) \<and>
   (\<exists>w\<in>set [0, 1, 3]. \<exists>k. page_id (page_id_from diamond 2 0) 2 = Some k \<and>
       page_id (page_id_from diamond 2 0) w = Some k)"
proof -
  let ?r = "\<lparr>views = [0, 1, 3], heap = page_id_from diamond 2 0, percent_removed = 25,
          next_pass_number = 2\<rparr>"
  have r: "reduce_views assigned_already render_links id diamond [0, 1, 2, 3] True = Inr ?r"
    by (simp add: reduce_views_def assigned_already_def build_fingerprinted_pages_def
        FingerprintedPage_def compute_fingerprint_def get_fingerprint_def render_links_def
        page_id.simps diamond_def new_view_def page_id_from_def upt_rec
        MIN_REMOVED_VIEWS_TO_GO_ON_def passes.simps)
  have f: "fresh_views (fst (assigned_already diamond [0, 1, 2, 3]))
     (snd (assigned_already diamond [0, 1, 2, 3]))"
    by (simp add: fresh_views_def assigned_already_def diamond_def new_view_def)
  have v: "(1::nat) \<in> set (views ?r)"
    by simp
  have t: "(''a'', Some 2) \<in> set (actions (heap ?r ! 1))"
    by (simp add: diamond_def new_view_def page_id_from_def)
  from no_dangling_references [OF r f v t] r f v t show ?thesis
    by simp
qed

subsection \<open>Pages with the same trace in the first pass\<close>

lemma render_links_links_of: "render_links gs v = [(content (gs ! v), links_of gs v)]"
  by (simp add: render_links_def links_of_def)

lemma render_links_local: "render_local render_links"
  unfolding render_local_def render_links_links_of by simp

lemma render_localD:
  "render_local R \<Longrightarrow> content (gs' ! v) = content (gs ! v) \<Longrightarrow>
   links_of gs' v = links_of gs v \<Longrightarrow> R gs' v = R gs v"
  unfolding render_local_def by blast

lemma add_incoming_mono:
  "add_incoming gs d i ts fps = Inr fps' \<Longrightarrow> j < length fps \<Longrightarrow>
   q \<in> set (incoming_pages (fps ! j)) \<Longrightarrow> q \<in> set (incoming_pages (fps' ! j))"
proof (induction gs d i ts fps rule: add_incoming.induct)
  case (1 gs d i fps)
  then show ?case by simp
next
  case (2 gs d i ts fps)
  then show ?case by simp
next
  case (3 gs d i t' ts fps)
  from "3.prems"(1) obtain k j' where k: "page_id gs t' = Some k" and j': "d k = Some j'"
    and *: "add_incoming gs d i ts
              (fps[j' := (fps ! j')\<lparr>incoming_pages := incoming_pages (fps ! j') @ [i]\<rparr>]) = Inr fps'"
    by (auto split: option.splits)
  let ?fps = "fps[j' := (fps ! j')\<lparr>incoming_pages := incoming_pages (fps ! j') @ [i]\<rparr>]"
  from "3.prems"(2) have l: "j < length ?fps"
    by simp
  from "3.prems"(2,3) have "q \<in> set (incoming_pages (?fps ! j))"
    by (cases "j = j'") simp_all
  from "3.IH"[OF k j' * l this] show ?case .
qed

lemma add_incoming_adds:
  "add_incoming gs d i ts fps = Inr fps' \<Longrightarrow> Some t \<in> set ts \<Longrightarrow> page_id gs t = Some k \<Longrightarrow>
   d k = Some j \<Longrightarrow> j < length fps \<Longrightarrow> i \<in> set (incoming_pages (fps' ! j))"
proof (induction gs d i ts fps rule: add_incoming.induct)
  case (1 gs d i fps)
  then show ?case by simp
next
  case (2 gs d i ts fps)
  then show ?case by simp
next
  case (3 gs d i t' ts fps)
  from "3.prems"(1) obtain k' j' where k': "page_id gs t' = Some k'" and j': "d k' = Some j'"
    and *: "add_incoming gs d i ts
              (fps[j' := (fps ! j')\<lparr>incoming_pages := incoming_pages (fps ! j') @ [i]\<rparr>]) = Inr fps'"
    by (auto split: option.splits)
  let ?fps = "fps[j' := (fps ! j')\<lparr>incoming_pages := incoming_pages (fps ! j') @ [i]\<rparr>]"
  from "3.prems"(5) have l: "j < length ?fps"
    by simp
  show ?case
  proof (cases "t = t'")
    case True
    with k' j' "3.prems"(3,4) have "j' = j"
      by simp
    with "3.prems"(5) have "i \<in> set (incoming_pages (?fps ! j))"
      by simp
    from add_incoming_mono[OF * l this] show ?thesis .
  next
    case False
    with "3.prems"(2) have "Some t \<in> set ts"
      by simp
    from "3.IH"[OF k' j' * this "3.prems"(3,4) l] show ?thesis .
  qed
qed

lemma set_incoming_pages_mono:
  "set_incoming_pages gs d vs i fps = Inr fps' \<Longrightarrow> j < length fps \<Longrightarrow>
   q \<in> set (incoming_pages (fps ! j)) \<Longrightarrow> q \<in> set (incoming_pages (fps' ! j))"
proof (induction gs d vs i fps rule: set_incoming_pages.induct)
  case (1 gs d i fps)
  then show ?case by simp
next
  case (2 gs d v vs i fps)
  from "2.prems"(1) obtain fps1 where
    a: "add_incoming gs d i (map snd (actions (gs ! v))) fps = Inr fps1"
    and s: "set_incoming_pages gs d vs (Suc i) fps1 = Inr fps'"
    by (auto split: sum.splits)
  from add_incoming_length[OF a] "2.prems"(2) have l: "j < length fps1"
    by simp
  from "2.IH"[OF a s l add_incoming_mono[OF a "2.prems"(2,3)]] show ?case .
qed

lemma set_incoming_pages_adds:
  "set_incoming_pages gs d vs i fps = Inr fps' \<Longrightarrow> q < length vs \<Longrightarrow>
   Some t \<in> set (map snd (actions (gs ! (vs ! q)))) \<Longrightarrow> page_id gs t = Some k \<Longrightarrow>
   d k = Some j \<Longrightarrow> j < length fps \<Longrightarrow> i + q \<in> set (incoming_pages (fps' ! j))"
proof (induction gs d vs i fps arbitrary: q rule: set_incoming_pages.induct)
  case (1 gs d i fps)
  then show ?case by simp
next
  case (2 gs d v vs i fps)
  from "2.prems"(1) obtain fps1 where
    a: "add_incoming gs d i (map snd (actions (gs ! v))) fps = Inr fps1"
    and s: "set_incoming_pages gs d vs (Suc i) fps1 = Inr fps'"
    by (auto split: sum.splits)
  from add_incoming_length[OF a] "2.prems"(6) have l: "j < length fps1"
    by simp
  show ?case
  proof (cases q)
    case 0
    with "2.prems"(3) have "Some t \<in> set (map snd (actions (gs ! v)))"
      by simp
    from add_incoming_adds[OF a this "2.prems"(4,5,6)] have
      "i \<in> set (incoming_pages (fps1 ! j))" .
    from set_incoming_pages_mono[OF s l this] 0 show ?thesis
      by simp
  next
    case (Suc q')
    with "2.prems"(2,3) have "q' < length vs"
      and "Some t \<in> set (map snd (actions (gs ! (vs ! q'))))"
      by simp_all
    from "2.IH"[OF a s this "2.prems"(4,5) l] Suc show ?thesis
      by simp
  qed
qed

lemma build_incoming_complete:
  assumes fresh: "fresh_views gs gvs"
    and built: "build_fingerprinted_pages R H gs gvs = Inr fps"
    and i: "i < length gvs" and t: "Some t \<in> set (map snd (actions (gs ! (gvs ! i))))"
  shows "\<exists>j<length gvs. t = gvs ! j \<and> i \<in> set (incoming_pages (fps ! j))"
proof -
  from built obtain d where d: "fp_pages_per_page_id gs gvs 0 Map.empty = Inr d"
    and si: "set_incoming_pages gs d gvs 0 (map (FingerprintedPage R H gs) gvs) = Inr fps"
    by (auto simp: build_fingerprinted_pages_def Let_def split: sum.splits)
  from i have v: "gvs ! i \<in> set gvs"
    by simp
  from set_incoming_pages_linked[OF si v t] obtain k j where
    k: "page_id gs t = Some k" and j: "d k = Some j"
    by blast
  from fp_pages_per_page_id_entry[OF d j] have jl: "j < length gvs"
    and u: "page_id gs (gvs ! j) = Some k"
    by simp_all
  from fresh have ing: "\<forall>v\<in>set gvs. v < length gs"
    and ids: "distinct (map assigned_page_id gs)"
    and roots: "\<forall>v<length gs. page_id_source (gs ! v) = None"
    and refs: "\<forall>g\<in>set gs. \<forall>t\<in>set (map snd (actions g)).
                 case t of None \<Rightarrow> True | Some w \<Rightarrow> w < length gs"
    by (simp_all add: fresh_views_def list_all_iff list_all_length)
  from v ing have "gs ! (gvs ! i) \<in> set gs"
    by simp
  with refs t have tl: "t < length gs"
    by force
  from jl ing have ul: "gvs ! j < length gs"
    by simp
  from tl ul roots k u have
    "assigned_page_id (gs ! t) = assigned_page_id (gs ! (gvs ! j))"
    by (simp add: page_id_root)
  with ids tl ul have e: "t = gvs ! j"
    by (simp add: distinct_conv_nth) (metis nth_map length_map)
  from jl have "j < length (map (FingerprintedPage R H gs) gvs)"
    by simp
  from set_incoming_pages_adds[OF si i t k j this] have "i \<in> set (incoming_pages (fps ! j))"
    by simp
  with jl e show ?thesis
    by blast
qed

lemma recompute_incoming_fields:
  "game_view (recompute_incoming R H gs js fps ! y) = game_view (fps ! y) \<and>
   incoming_pages (recompute_incoming R H gs js fps ! y) = incoming_pages (fps ! y)"
proof (induction js arbitrary: fps)
  case Nil
  show ?case by simp
next
  case (Cons j js)
  let ?fps = "fps[j := (fps ! j)\<lparr>fingerprint := compute_fingerprint R H gs (game_view (fps ! j))\<rparr>]"
  have "game_view (?fps ! y) = game_view (fps ! y) \<and>
        incoming_pages (?fps ! y) = incoming_pages (fps ! y)"
  proof (cases "y = j \<and> j < length fps")
    case True
    then show ?thesis by simp
  next
    case False
    then show ?thesis
      by (cases "y = j") (simp_all add: list_update_beyond)
  qed
  with Cons.IH[of ?fps] show ?case
    by simp
qed

lemma recompute_incoming_fingerprint:
  "i < length fps \<Longrightarrow>
   fingerprint (recompute_incoming R H gs js fps ! i) =
     (if i \<in> set js then compute_fingerprint R H gs (game_view (fps ! i))
      else fingerprint (fps ! i))"
proof (induction js arbitrary: fps)
  case Nil
  show ?case by simp
next
  case (Cons j js)
  let ?fps = "fps[j := (fps ! j)\<lparr>fingerprint := compute_fingerprint R H gs (game_view (fps ! j))\<rparr>]"
  from Cons.prems have l: "i < length ?fps"
    by simp
  from Cons.prems have g: "game_view (?fps ! i) = game_view (fps ! i)"
    by (cases "i = j") simp_all
  from Cons.prems have f: "fingerprint (?fps ! i) =
      (if i = j then compute_fingerprint R H gs (game_view (fps ! i)) else fingerprint (fps ! i))"
    by (cases "i = j") simp_all
  from Cons.IH[OF l] have "fingerprint (recompute_incoming R H gs js ?fps ! i) =
      (if i \<in> set js then compute_fingerprint R H gs (game_view (fps ! i))
       else if i = j then compute_fingerprint R H gs (game_view (fps ! i))
       else fingerprint (fps ! i))"
    by (simp only: g f)
  then show ?case
    by (simp only: recompute_incoming.simps) simp
qed

lemma pass_loop_heap_other:
  "pass_loop R H gs fps m f ws = Inr (gs', fps', m', f') \<Longrightarrow>
   \<forall>x\<in>set ws. game_view (fps ! x) \<noteq> v \<Longrightarrow> gs' ! v = gs ! v"
proof (induction ws arbitrary: gs fps m f)
  case Nil
  then show ?case by simp
next
  case (Cons x xs)
  show ?case
  proof (cases "m (fingerprint (fps ! x))")
    case None
    with Cons.prems(1) have
      *: "pass_loop R H gs fps (m(fingerprint (fps ! x) \<mapsto> game_view (fps ! x))) (f @ [x]) xs =
         Inr (gs', fps', m', f')"
      by simp
    from Cons.prems(2) have "\<forall>x\<in>set xs. game_view (fps ! x) \<noteq> v"
      by simp
    from Cons.IH[OF * this] show ?thesis .
  next
    case (Some e)
    let ?gs = "page_id_from gs (game_view (fps ! x)) e"
    let ?fps = "recompute_incoming R H ?gs (incoming_pages (fps ! x)) fps"
    from Some Cons.prems(1) have *: "pass_loop R H ?gs ?fps m f xs = Inr (gs', fps', m', f')"
      by (auto simp: Let_def split: option.splits if_splits)
    from Cons.prems(2) have "\<forall>x\<in>set xs. game_view (?fps ! x) \<noteq> v"
      by (simp add: recompute_incoming_fields)
    from Cons.IH[OF * this] have "gs' ! v = ?gs ! v" .
    moreover from Cons.prems(2) have "game_view (fps ! x) \<noteq> v"
      by simp
    then have "?gs ! v = gs ! v"
      by (simp add: page_id_from_other)
    ultimately show ?thesis by simp
  qed
qed

lemma pass_loop_filtered_mono:
  "pass_loop R H gs fps m f ws = Inr (gs', fps', m', f') \<Longrightarrow> set f \<subseteq> set f'"
proof (induction ws arbitrary: gs fps m f)
  case Nil
  then show ?case by simp
next
  case (Cons x xs)
  show ?case
  proof (cases "m (fingerprint (fps ! x))")
    case None
    with Cons.prems have
      "pass_loop R H gs fps (m(fingerprint (fps ! x) \<mapsto> game_view (fps ! x))) (f @ [x]) xs =
         Inr (gs', fps', m', f')"
      by simp
    from Cons.IH[OF this] show ?thesis by simp
  next
    case (Some e')
    with Cons.prems obtain gs1 fps1 where
      "pass_loop R H gs1 fps1 m f xs = Inr (gs', fps', m', f')"
      by (auto simp: Let_def split: option.splits if_splits)
    from Cons.IH[OF this] show ?thesis .
  qed
qed

lemma page_id_from_actions:
  "a < length gs \<Longrightarrow> actions (page_id_from gs a e ! v) = actions (gs ! v) \<and>
   content (page_id_from gs a e ! v) = content (gs ! v)"
  by (cases "v = a") (simp_all add: page_id_from_def)

lemma first_pass_keep:
  "first_pass_invariant R H gs gvs fps (x # xs) \<Longrightarrow> first_pass_invariant R H gs gvs fps xs"
  by (simp add: first_pass_invariant_def)

lemma first_pass_merge:
  assumes local: "render_local R"
    and inv: "pass_invariant gs gvs fps m f (x # xs)"
    and fpi: "first_pass_invariant R H gs gvs fps (x # xs)"
    and look: "m (fingerprint (fps ! x)) = Some e"
  shows "first_pass_invariant R H (page_id_from gs (game_view (fps ! x)) e) gvs
           (recompute_incoming R H (page_id_from gs (game_view (fps ! x)) e)
              (incoming_pages (fps ! x)) fps) xs"
proof -
  note gvmap = pass_invariant_views[OF inv] and dg = pass_invariant_distinct_views[OF inv]
    and ing = pass_invariant_in_heap[OF inv] and ids = pass_invariant_ids[OF inv]
    and dl = pass_invariant_distinct[OF inv] and roots = pass_invariant_roots[OF inv]
    and res = pass_invariant_resolved[OF inv] and dict = pass_invariant_dict[OF inv]
  from gvmap have len: "length fps = length gvs"
    by auto
  let ?a = "gvs ! x"
  from roots[of x] have x: "x < length fps" and ra: "page_id_source (gs ! ?a) = None"
    by simp_all
  with gvmap have a: "game_view (fps ! x) = ?a"
    by (metis nth_map)
  from dict[OF look] obtain j where j: "j \<in> set f" and e: "e = gvs ! j"
    by blast
  from roots[of j] j have jl: "j < length fps" and re: "page_id_source (gs ! e) = None"
    by (simp_all add: e)
  from dl j have jx: "j \<noteq> x"
    by auto
  with dg x jl len have ae: "?a \<noteq> e"
    by (simp add: e nth_eq_iff_index_eq)
  from x len ing have al: "?a < length gs"
    by simp
  from jl len ing have el: "e < length gs"
    by (simp add: e)
  let ?gs = "page_id_from gs ?a e"
  let ?fps = "recompute_incoming R H ?gs (incoming_pages (fps ! x)) fps"
  note pid = page_id_after_redirect[OF _ al el ae ra re ids]
  from fpi have cur: "\<forall>i<length fps. fingerprint (fps ! i) = compute_fingerprint R H gs (gvs ! i)"
    and com: "\<forall>i<length gvs. \<forall>t. Some t \<in> set (map snd (actions (gs ! (gvs ! i)))) \<longrightarrow>
                (\<exists>j<length gvs. t = gvs ! j \<and> i \<in> set (incoming_pages (fps ! j)))"
    and own: "\<forall>v\<in>set gvs. \<forall>w\<in>set (x # xs).
                page_id gs v = Some (assigned_page_id (gs ! (gvs ! w))) \<longrightarrow> v = gvs ! w"
    by (simp_all add: first_pass_invariant_def)
  have kept: "page_id ?gs w = page_id gs w" if w: "w \<in> set gvs" "w \<noteq> ?a" for w
  proof -
    from res[OF w(1)] obtain k where k: "page_id gs w = Some k"
      by blast
    have "k \<noteq> assigned_page_id (gs ! ?a)"
    proof
      assume "k = assigned_page_id (gs ! ?a)"
      with k own w(1) have "w = ?a"
        by simp
      with w(2) show False
        by simp
    qed
    with pid[OF k] k show ?thesis
      by simp
  qed
  have c1: "\<forall>i<length ?fps. fingerprint (?fps ! i) = compute_fingerprint R H ?gs (gvs ! i)"
  proof (intro allI impI)
    fix i
    assume "i < length ?fps"
    then have i: "i < length fps"
      by simp
    with gvmap have gi: "game_view (fps ! i) = gvs ! i"
      by (metis nth_map)
    show "fingerprint (?fps ! i) = compute_fingerprint R H ?gs (gvs ! i)"
    proof (cases "i \<in> set (incoming_pages (fps ! x))")
      case True
      with i gi show ?thesis
        by (simp add: recompute_incoming_fingerprint)
    next
      case False
      have "links_of ?gs (gvs ! i) = links_of gs (gvs ! i)"
        unfolding links_of_def
      proof (simp only: page_id_from_actions[OF al], rule map_cong[OF refl])
        fix st
        assume st: "st \<in> set (actions (gs ! (gvs ! i)))"
        obtain s t where p: "st = (s, t)"
          by (cases st)
        show "(case st of (s, t) \<Rightarrow> (s, case t of None \<Rightarrow> None | Some w \<Rightarrow> page_id ?gs w)) =
              (case st of (s, t) \<Rightarrow> (s, case t of None \<Rightarrow> None | Some w \<Rightarrow> page_id gs w))"
        proof (cases t)
          case None
          with p show ?thesis by simp
        next
          case (Some w)
          with st p have "Some w \<in> set (map snd (actions (gs ! (gvs ! i))))"
            by force
          with com i len obtain j' where j': "j' < length gvs" "w = gvs ! j'"
            "i \<in> set (incoming_pages (fps ! j'))"
            by auto
          from j'(3) False have "j' \<noteq> x"
            by auto
          with dg j'(1) x len have "w \<noteq> ?a"
            by (simp add: j'(2) nth_eq_iff_index_eq)
          moreover from j' have "w \<in> set gvs"
            by simp
          ultimately have "page_id ?gs w = page_id gs w"
            by (simp add: kept)
          with p Some show ?thesis
            by simp
        qed
      qed
      with local have "R ?gs (gvs ! i) = R gs (gvs ! i)"
        by (simp add: render_localD[of R ?gs "gvs ! i" gs] page_id_from_actions[OF al])
      then have "compute_fingerprint R H ?gs (gvs ! i) = compute_fingerprint R H gs (gvs ! i)"
        by (simp add: compute_fingerprint_def)
      with False i cur show ?thesis
        by (simp add: recompute_incoming_fingerprint)
    qed
  qed
  have c2: "\<forall>i<length gvs. \<forall>t. Some t \<in> set (map snd (actions (?gs ! (gvs ! i)))) \<longrightarrow>
              (\<exists>j<length gvs. t = gvs ! j \<and> i \<in> set (incoming_pages (?fps ! j)))"
    using com by (simp only: page_id_from_actions[OF al] recompute_incoming_fields)
  have c3: "\<forall>v\<in>set gvs. \<forall>w\<in>set xs.
              page_id ?gs v = Some (assigned_page_id (?gs ! (gvs ! w))) \<longrightarrow> v = gvs ! w"
  proof (intro ballI impI)
    fix v w
    assume v: "v \<in> set gvs" and w: "w \<in> set xs"
      and eq: "page_id ?gs v = Some (assigned_page_id (?gs ! (gvs ! w)))"
    from roots[of w] w have wl: "w < length fps"
      by simp
    with len ing have gl: "gvs ! w < length gs"
      by simp
    then have as: "assigned_page_id (?gs ! (gvs ! w)) = assigned_page_id (gs ! (gvs ! w))"
      by (rule page_id_from_assigned_nth)
    from res[OF v] obtain k where k: "page_id gs v = Some k"
      by blast
    show "v = gvs ! w"
    proof (cases "k = assigned_page_id (gs ! ?a)")
      case True
      with pid[OF k] eq as have "assigned_page_id (gs ! e) = assigned_page_id (gs ! (gvs ! w))"
        by simp
      with ids el gl have "e = gvs ! w"
        by (simp add: distinct_conv_nth) (metis nth_map length_map)
      with dg jl wl len have "j = w"
        by (simp add: e nth_eq_iff_index_eq)
      with dl j w show ?thesis
        by auto
    next
      case False
      with pid[OF k] eq as have "k = assigned_page_id (gs ! (gvs ! w))"
        by simp
      with k own v w show ?thesis
        by simp
    qed
  qed
  from c1 c2 c3 show ?thesis
    unfolding a first_pass_invariant_def by (intro conjI)
qed

lemma pass_loop_first_pass:
  assumes local: "render_local R"
  shows "pass_invariant gs gvs fps m f (ws @ rest) \<Longrightarrow>
         first_pass_invariant R H gs gvs fps (ws @ rest) \<Longrightarrow>
         \<exists>gs1 fps1 m1 f1. pass_loop R H gs fps m f ws = Inr (gs1, fps1, m1, f1) \<and>
            pass_invariant gs1 gvs fps1 m1 f1 rest \<and> first_pass_invariant R H gs1 gvs fps1 rest"
proof (induction ws arbitrary: gs fps m f)
  case Nil
  then show ?case by simp
next
  case (Cons x xs)
  from Cons.prems have inv: "pass_invariant gs gvs fps m f (x # xs @ rest)"
    and fpi: "first_pass_invariant R H gs gvs fps (x # xs @ rest)"
    by simp_all
  show ?case
  proof (cases "m (fingerprint (fps ! x))")
    case None
    let ?m = "m(fingerprint (fps ! x) \<mapsto> game_view (fps ! x))"
    from None have step: "pass_loop R H gs fps m f (x # xs) = pass_loop R H gs fps ?m (f @ [x]) xs"
      by simp
    from Cons.IH[OF pass_invariant_keep[OF inv] first_pass_keep[OF fpi]]
    show ?thesis
      by (simp only: step)
  next
    case (Some e)
    let ?gs = "page_id_from gs (game_view (fps ! x)) e"
    let ?fps = "recompute_incoming R H ?gs (incoming_pages (fps ! x)) fps"
    from pass_invariant_merge(1)[OF inv Some] obtain a b where
      ab: "page_id gs (game_view (fps ! x)) = Some a" "page_id gs e = Some b" "a \<noteq> b"
      by blast
    with Some have step: "pass_loop R H gs fps m f (x # xs) = pass_loop R H ?gs ?fps m f xs"
      by (simp add: Let_def)
    have inv': "pass_invariant ?gs gvs ?fps m f (xs @ rest)"
      by (rule pass_invariant_merge(2)[OF inv Some]) (rule recompute_incoming_game_view)
    from Cons.IH[OF inv' first_pass_merge[OF local inv fpi Some]]
    show ?thesis
      by (simp only: step)
  qed
qed

lemma fresh_views_first_pass:
  assumes fresh: "fresh_views gs gvs"
    and built: "build_fingerprinted_pages R H gs gvs = Inr fps"
  shows "first_pass_invariant R H gs gvs fps [0..<length fps]"
proof -
  note f = build_fingerprinted_pages_fields[OF built]
  from f(1) have len: "length fps = length gvs"
    by auto
  from fresh have ing: "\<forall>v\<in>set gvs. v < length gs"
    and ids: "distinct (map assigned_page_id gs)"
    and roots: "\<forall>v<length gs. page_id_source (gs ! v) = None"
    by (simp_all add: fresh_views_def list_all_iff list_all_length)
  have c1: "\<forall>i<length fps. fingerprint (fps ! i) = compute_fingerprint R H gs (gvs ! i)"
  proof (intro allI impI)
    fix i
    assume "i < length fps"
    with f(2) len show "fingerprint (fps ! i) = compute_fingerprint R H gs (gvs ! i)"
      by (metis nth_map)
  qed
  have c2: "\<forall>i<length gvs. \<forall>t. Some t \<in> set (map snd (actions (gs ! (gvs ! i)))) \<longrightarrow>
              (\<exists>j<length gvs. t = gvs ! j \<and> i \<in> set (incoming_pages (fps ! j)))"
    using build_incoming_complete[OF fresh built] by blast
  have c3: "\<forall>v\<in>set gvs. \<forall>w\<in>set [0..<length fps].
              page_id gs v = Some (assigned_page_id (gs ! (gvs ! w))) \<longrightarrow> v = gvs ! w"
  proof (intro ballI impI)
    fix v w
    assume v: "v \<in> set gvs" and w: "w \<in> set [0..<length fps]"
      and eq: "page_id gs v = Some (assigned_page_id (gs ! (gvs ! w)))"
    from v ing have vl: "v < length gs"
      by simp
    from w len ing have wl: "gvs ! w < length gs"
      by simp
    from vl roots eq have "assigned_page_id (gs ! v) = assigned_page_id (gs ! (gvs ! w))"
      by (simp add: page_id_root)
    with ids vl wl show "v = gvs ! w"
      by (simp add: distinct_conv_nth) (metis nth_map length_map)
  qed
  from c1 c2 c3 show ?thesis
    unfolding first_pass_invariant_def by (intro conjI)
qed

text \<open>
  C1, as the code has it in the first pass. Take a page \<open>a\<close> and a later page \<open>b\<close> of the
  working list, the heap \<open>gs1\<close> in which the loop reaches \<open>a\<close> and the heap \<open>gs2\<close> in which it
  reaches \<open>b\<close>. If the trace of \<open>b\<close> in \<open>gs2\<close> has the fingerprint of the trace of \<open>a\<close> in
  \<open>gs1\<close>, then \<open>b\<close> is merged within the pass: it is not in the filtered list, it is
  redirected to a page of the filtered list, and \<open>a\<close> and \<open>b\<close> have the identifier of that
  page when the pass ends. The views are as \<open>assign_page_ids\<close> must give them and the
  renderer keeps its contract. The statement is for the first pass: there the fingerprint
  stored for a page is the fingerprint of its trace at every step, which a later pass
  does not have on the 57 pages of \<open>chained\<close>.
\<close>

theorem same_trace_merged:
  assumes fresh: "fresh_views gs game_views" and local: "render_local R"
    and built: "build_fingerprinted_pages R H gs game_views = Inr fps"
    and split: "[0..<length fps] = xs @ a # ys @ b # zs"
    and first: "pass_loop R H gs fps Map.empty [] xs = Inr (gs1, fps1, m1, f1)"
    and second: "pass_loop R H gs fps Map.empty [] (xs @ a # ys) = Inr (gs2, fps2, m2, f2)"
    and whole: "pass_loop R H gs fps Map.empty [] (xs @ a # ys @ b # zs) =
                  Inr (gs', fps', m', filtered)"
    and same: "compute_fingerprint R H gs1 (game_views ! a) =
                 compute_fingerprint R H gs2 (game_views ! b)"
  shows "b \<notin> set filtered \<and>
         (\<exists>j\<in>set filtered.
            page_id_source (gs' ! (game_views ! b)) = Some (game_views ! j) \<and>
            page_id gs' (game_views ! b) = Some (assigned_page_id (gs' ! (game_views ! j))) \<and>
            page_id gs' (game_views ! a) = Some (assigned_page_id (gs' ! (game_views ! j))))"
proof -
  let ?gvs = game_views
  from fresh_views_invariant[OF fresh built] split
  have inv0: "pass_invariant gs ?gvs fps Map.empty [] (xs @ a # ys @ b # zs)"
    by simp
  from fresh_views_first_pass[OF fresh built] split
  have fpi0: "first_pass_invariant R H gs ?gvs fps (xs @ a # ys @ b # zs)"
    by simp
  note dg = pass_invariant_distinct_views[OF inv0]
  from pass_invariant_distinct[OF inv0] have dl: "distinct (xs @ a # ys @ b # zs)"
    by simp
  from pass_loop_first_pass[OF local inv0 fpi0] first
  have inv1: "pass_invariant gs1 ?gvs fps1 m1 f1 (a # ys @ b # zs)"
    and fpi1: "first_pass_invariant R H gs1 ?gvs fps1 (a # ys @ b # zs)"
    by simp_all
  from first second have second': "pass_loop R H gs1 fps1 m1 f1 (a # ys) = Inr (gs2, fps2, m2, f2)"
    by (simp add: pass_loop_append)
  from pass_invariant_roots[OF inv1, of a] have al: "a < length fps1"
    by simp
  with fpi1 have fa: "fingerprint (fps1 ! a) = compute_fingerprint R H gs1 (?gvs ! a)"
    by (simp add: first_pass_invariant_def)
  from pass_invariant_views[OF inv1] al have ga: "game_view (fps1 ! a) = ?gvs ! a"
    by (metis nth_map)
  from inv1 have inv1': "pass_invariant gs1 ?gvs fps1 m1 f1 ((a # ys) @ b # zs)"
    by simp
  from fpi1 have fpi1': "first_pass_invariant R H gs1 ?gvs fps1 ((a # ys) @ b # zs)"
    by simp
  from pass_loop_first_pass[OF local inv1' fpi1'] second'
  have inv2: "pass_invariant gs2 ?gvs fps2 m2 f2 (b # zs)"
    and fpi2: "first_pass_invariant R H gs2 ?gvs fps2 (b # zs)"
    by simp_all
  from pass_invariant_roots[OF inv2, of b] have bl: "b < length fps2"
    by simp
  with fpi2 have fb: "fingerprint (fps2 ! b) = compute_fingerprint R H gs2 (?gvs ! b)"
    by (simp add: first_pass_invariant_def)
  from pass_invariant_views[OF inv2] bl have gb: "game_view (fps2 ! b) = ?gvs ! b"
    by (metis nth_map)
  from pass_invariant_views[OF inv2] have len2: "length fps2 = length ?gvs"
    by auto
  from pass_loop_head_in_dict[OF second'] fa fb same obtain e where
    look: "m2 (fingerprint (fps2 ! b)) = Some e"
    by auto
  from pass_invariant_dict[OF inv2 look] obtain j where j: "j \<in> set f2" and e: "e = ?gvs ! j"
    by blast
  from pass_invariant_roots[OF inv2, of j] j have jl: "j < length fps2"
    by simp
  let ?gs3 = "page_id_from gs2 (?gvs ! b) e"
  let ?fps3 = "recompute_incoming R H ?gs3 (incoming_pages (fps2 ! b)) fps2"
  from whole have "pass_loop R H gs fps Map.empty [] ((xs @ a # ys) @ b # zs) =
                  Inr (gs', fps', m', filtered)"
    by simp
  with second have whole': "pass_loop R H gs2 fps2 m2 f2 (b # zs) = Inr (gs', fps', m', filtered)"
    by (simp only: pass_loop_append sum.case prod.case)
  from pass_invariant_merge(1)[OF inv2 look] obtain ia ib where
    "page_id gs2 (game_view (fps2 ! b)) = Some ia" "page_id gs2 e = Some ib" "ia \<noteq> ib"
    by blast
  with look have "pass_loop R H gs2 fps2 m2 f2 (b # zs) =
      pass_loop R H (page_id_from gs2 (game_view (fps2 ! b)) e)
        (recompute_incoming R H (page_id_from gs2 (game_view (fps2 ! b)) e)
           (incoming_pages (fps2 ! b)) fps2) m2 f2 zs"
    by (simp add: Let_def)
  with whole' have rest: "pass_loop R H ?gs3 ?fps3 m2 f2 zs = Inr (gs', fps', m', filtered)"
    by (simp only: gb)
  have "pass_invariant (page_id_from gs2 (game_view (fps2 ! b)) e) ?gvs ?fps3 m2 f2 zs"
    by (rule pass_invariant_merge(2)[OF inv2 look]) (rule recompute_incoming_game_view)
  then have inv3: "pass_invariant ?gs3 ?gvs ?fps3 m2 f2 zs"
    by (simp only: gb)
  from pass_loop_invariant[OF inv3, of R H] rest
  have invF: "pass_invariant gs' ?gvs fps' m' filtered []"
    by simp
  from pass_loop_filtered_subset[OF rest] have "set filtered \<subseteq> set f2 \<union> set zs" .
  moreover from pass_invariant_distinct[OF inv2] have "b \<notin> set f2 \<union> set zs"
    by auto
  ultimately have dropped: "b \<notin> set filtered"
    by auto
  from pass_loop_filtered_mono[OF rest] j have jf: "j \<in> set filtered"
    by auto
  from pass_invariant_roots[OF invF, of j] jf have rj: "page_id_source (gs' ! e) = None"
    by (simp add: e)
  from jl len2 have "e \<in> set ?gvs"
    by (simp add: e)
  from pass_invariant_in_heap[OF invF this] rj
  have pe: "page_id gs' e = Some (assigned_page_id (gs' ! e))"
    by (rule page_id_root)
  have views3: "game_view (?fps3 ! x) = ?gvs ! x" if "x \<in> set zs" for x
  proof -
    from pass_invariant_roots[OF inv2, of x] that have "x < length fps2"
      by simp
    with pass_invariant_views[OF inv2] have "game_view (fps2 ! x) = ?gvs ! x"
      by (metis nth_map)
    then show ?thesis
      by (simp add: recompute_incoming_fields)
  qed
  have apart: "?gvs ! x \<noteq> ?gvs ! y"
    if "x \<in> set (xs @ a # ys @ b # zs)" "y \<in> set (xs @ a # ys @ b # zs)" "x \<noteq> y" for x y
  proof -
    from pass_invariant_roots[OF inv0] that(1,2) have "x < length fps" "y < length fps"
      by simp_all
    moreover from pass_invariant_views[OF inv0] have "length fps = length ?gvs"
      by auto
    ultimately show ?thesis
      using dg that(3) by (simp add: nth_eq_iff_index_eq)
  qed
  have "\<forall>x\<in>set zs. game_view (?fps3 ! x) \<noteq> ?gvs ! b"
  proof
    fix x
    assume x: "x \<in> set zs"
    with dl have "x \<noteq> b"
      by auto
    with apart[of x b] x views3[OF x] show "game_view (?fps3 ! x) \<noteq> ?gvs ! b"
      by simp
  qed
  from pass_loop_heap_other[OF rest this] have "gs' ! (?gvs ! b) = ?gs3 ! (?gvs ! b)" .
  moreover from bl len2 pass_invariant_in_heap[OF inv2, of "?gvs ! b"]
  have bh: "?gvs ! b < length gs2"
    by simp
  ultimately have sb: "page_id_source (gs' ! (?gvs ! b)) = Some e"
    by (simp add: page_id_from_def)
  from bl len2 have "?gvs ! b \<in> set ?gvs"
    by simp
  from pass_invariant_in_heap[OF invF this] sb pe
  have pb: "page_id gs' (?gvs ! b) = Some (assigned_page_id (gs' ! e))"
    by (subst page_id.simps) simp
  have pa: "page_id gs' (?gvs ! a) = Some (assigned_page_id (gs' ! e))"
  proof (cases "m1 (fingerprint (fps1 ! a))")
    case None
    with second' have
      *: "pass_loop R H gs1 fps1 (m1(fingerprint (fps1 ! a) \<mapsto> game_view (fps1 ! a)))
            (f1 @ [a]) ys = Inr (gs2, fps2, m2, f2)"
      by simp
    have "(m1(fingerprint (fps1 ! a) \<mapsto> game_view (fps1 ! a))) (fingerprint (fps1 ! a))
            = Some (game_view (fps1 ! a))"
      by simp
    from pass_loop_dict_mono[OF * this] look fa fb same ga have "e = ?gvs ! a"
      by simp
    with pe show ?thesis
      by simp
  next
    case (Some e0)
    from pass_loop_dict_mono[OF second' Some] look fa fb same have e0: "e0 = e"
      by simp
    let ?gsA = "page_id_from gs1 (?gvs ! a) e"
    let ?fpsA = "recompute_incoming R H ?gsA (incoming_pages (fps1 ! a)) fps1"
    from pass_invariant_merge(1)[OF inv1 Some] obtain ia' ib' where
      "page_id gs1 (game_view (fps1 ! a)) = Some ia'" "page_id gs1 e0 = Some ib'" "ia' \<noteq> ib'"
      by blast
    with Some have "pass_loop R H gs1 fps1 m1 f1 (a # ys) =
        pass_loop R H (page_id_from gs1 (game_view (fps1 ! a)) e0)
          (recompute_incoming R H (page_id_from gs1 (game_view (fps1 ! a)) e0)
             (incoming_pages (fps1 ! a)) fps1) m1 f1 ys"
      by (simp add: Let_def)
    with second' have runA: "pass_loop R H ?gsA ?fpsA m1 f1 ys = Inr (gs2, fps2, m2, f2)"
      by (simp only: ga e0)
    have "\<forall>x\<in>set ys. game_view (?fpsA ! x) \<noteq> ?gvs ! a"
    proof
      fix x
      assume x: "x \<in> set ys"
      with dl have "x \<noteq> a"
        by auto
      from pass_invariant_roots[OF inv1, of x] x have "x < length fps1"
        by simp
      with pass_invariant_views[OF inv1] have "game_view (fps1 ! x) = ?gvs ! x"
        by (metis nth_map)
      with apart[of x a] x \<open>x \<noteq> a\<close> show "game_view (?fpsA ! x) \<noteq> ?gvs ! a"
        by (simp add: recompute_incoming_fields)
    qed
    from pass_loop_heap_other[OF runA this] have h2: "gs2 ! (?gvs ! a) = ?gsA ! (?gvs ! a)" .
    have "\<forall>x\<in>set (b # zs). game_view (fps2 ! x) \<noteq> ?gvs ! a"
    proof
      fix x
      assume x: "x \<in> set (b # zs)"
      with dl have "x \<noteq> a"
        by auto
      from pass_invariant_roots[OF inv2, of x] x have "x < length fps2"
        by auto
      with pass_invariant_views[OF inv2] have "game_view (fps2 ! x) = ?gvs ! x"
        by (metis nth_map)
      with apart[of x a] x \<open>x \<noteq> a\<close> show "game_view (fps2 ! x) \<noteq> ?gvs ! a"
        by auto
    qed
    from pass_loop_heap_other[OF whole' this] h2
    have "gs' ! (?gvs ! a) = ?gsA ! (?gvs ! a)"
      by simp
    moreover from pass_invariant_views[OF inv1] al have "?gvs ! a \<in> set ?gvs"
      by (metis ga nth_map nth_mem length_map)
    note ain = this
    from pass_invariant_in_heap[OF inv1 ain] have "?gvs ! a < length gs1" .
    ultimately have sa: "page_id_source (gs' ! (?gvs ! a)) = Some e"
      by (simp add: page_id_from_def)
    from pass_invariant_in_heap[OF invF ain] sa pe show ?thesis
      by (subst page_id.simps) simp
  qed
  from dropped jf sb pb pa show ?thesis
    unfolding e by blast
qed

text \<open>
  The two pages of \<open>twins\<close> draw the same and link to nothing: the second is redirected
  to the first.
\<close>

theorem same_trace_merged_witness:
  "fresh_views twins [0, 1] \<and> render_local (render_links ::
       nat game_view list \<Rightarrow> addr \<Rightarrow> (nat \<times> (string \<times> nat option) list) list) \<and>
   build_fingerprinted_pages render_links id twins [0, 1] = Inr twins_pages \<and>
   [0..<length twins_pages] = [] @ 0 # [] @ 1 # [] \<and>
   pass_loop render_links id twins twins_pages Map.empty [] [] =
     Inr (twins, twins_pages, Map.empty, []) \<and>
   pass_loop render_links id twins twins_pages Map.empty [] ([] @ 0 # []) =
     Inr (twins, twins_pages, [[(0, [])] \<mapsto> 0], [0]) \<and>
   pass_loop render_links id twins twins_pages Map.empty [] ([] @ 0 # [] @ 1 # []) =
     Inr (page_id_from twins 1 0, twins_pages, [[(0, [])] \<mapsto> 0], [0]) \<and>
   compute_fingerprint render_links id twins ([0, 1] ! 0) =
     compute_fingerprint render_links id twins ([0, 1] ! 1) \<and>
   (1::nat) \<notin> set [0] \<and>
   (\<exists>j\<in>set [0::nat].
      page_id_source (page_id_from twins 1 0 ! ([0, 1] ! 1)) = Some ([0, 1] ! j) \<and>
      page_id (page_id_from twins 1 0) ([0, 1] ! 1) =
        Some (assigned_page_id (page_id_from twins 1 0 ! ([0, 1] ! j))) \<and>
      page_id (page_id_from twins 1 0) ([0, 1] ! 0) =
        Some (assigned_page_id (page_id_from twins 1 0 ! ([0, 1] ! j))))"
proof -
  note defs = twins_def twins_pages_def new_view_def render_links_def
    compute_fingerprint_def get_fingerprint_def FingerprintedPage_def page_id.simps
  have f: "fresh_views twins [0, 1]"
    by (simp add: fresh_views_def twins_def new_view_def)
  have l: "render_local (render_links ::
       nat game_view list \<Rightarrow> addr \<Rightarrow> (nat \<times> (string \<times> nat option) list) list)"
    by (rule render_links_local)
  have b: "build_fingerprinted_pages render_links id twins [0, 1] = Inr twins_pages"
    by (simp add: build_fingerprinted_pages_def defs)
  have s: "[0..<length twins_pages] = [] @ 0 # [] @ 1 # []"
    by (simp add: twins_pages_def upt_rec)
  have p0: "pass_loop render_links id twins twins_pages Map.empty [] [] =
     Inr (twins, twins_pages, Map.empty, [])"
    by simp
  have p1: "pass_loop render_links id twins twins_pages Map.empty [] ([] @ 0 # []) =
     Inr (twins, twins_pages, [[(0, [])] \<mapsto> 0], [0])"
    by (simp add: twins_pages_def)
  have p2: "pass_loop render_links id twins twins_pages Map.empty [] ([] @ 0 # [] @ 1 # []) =
     Inr (page_id_from twins 1 0, twins_pages, [[(0, [])] \<mapsto> 0], [0])"
    by (simp add: twins_def twins_pages_def new_view_def page_id.simps)
  have c: "compute_fingerprint render_links id twins ([0, 1] ! 0) =
     compute_fingerprint render_links id twins ([0, 1] ! 1)"
    by (simp add: defs)
  from same_trace_merged [OF f l b s p0 p1 p2 c] f l b s p0 p1 p2 c show ?thesis
    by simp
qed

text \<open>
  C1, as the spec states it, fails. In the four pages of \<open>diamond\<close>, page 1 is kept, then
  page 2 is merged into page 0, which changes the trace of page 1 into the trace of page
  3; page 3 comes last and is kept too. The pass ends with pages 1 and 3 both in the
  filtered list and with the same trace.
\<close>

theorem identical_trace_both_kept:
  "build_fingerprinted_pages render_links id diamond [0, 1, 2, 3] = Inr diamond_pages \<and>
   pass_loop render_links id diamond diamond_pages Map.empty [] [0, 1, 2, 3] =
     Inr (page_id_from diamond 2 0,
          diamond_pages[1 := (diamond_pages ! 1)\<lparr>fingerprint := [(1, [(''a'', Some 1)])]\<rparr>],
          [[(0, [])] \<mapsto> 0, [(1, [(''a'', Some 3)])] \<mapsto> 1, [(1, [(''a'', Some 1)])] \<mapsto> 3],
          [0, 1, 3]) \<and>
   render_links (page_id_from diamond 2 0) 1 = render_links (page_id_from diamond 2 0) 3"
  by (simp add: build_fingerprinted_pages_def FingerprintedPage_def compute_fingerprint_def
        get_fingerprint_def render_links_def page_id.simps diamond_def diamond_pages_def
        new_view_def page_id_from_def)

subsection \<open>A page that links to itself\<close>

lemma fp_pages_per_page_id_error:
  "fp_pages_per_page_id gs vs i d0 = Inl e \<Longrightarrow> e \<noteq> AssertionError"
  by (induction vs arbitrary: i d0) (auto split: option.splits)

lemma add_incoming_error:
  "add_incoming gs d i ts fps = Inl e \<Longrightarrow> e \<noteq> AssertionError"
  by (induction gs d i ts fps rule: add_incoming.induct) (auto split: option.splits)

lemma set_incoming_pages_error:
  "set_incoming_pages gs d vs i fps = Inl e \<Longrightarrow> e \<noteq> AssertionError"
  by (induction gs d vs i fps rule: set_incoming_pages.induct)
     (auto split: sum.splits dest: add_incoming_error)

lemma build_fingerprinted_pages_error:
  "build_fingerprinted_pages R H gs gvs = Inl e \<Longrightarrow> e \<noteq> AssertionError"
  by (auto simp: build_fingerprinted_pages_def Let_def split: sum.splits
           dest: fp_pages_per_page_id_error set_incoming_pages_error)

lemma reduce_views_no_assertion:
  assumes a: "assign gs0 game_views0 = (gs, gvs)" and fresh: "fresh_views gs gvs"
  shows "reduce_views assign R H gs0 game_views0 multipass \<noteq> Inl AssertionError"
proof (cases "build_fingerprinted_pages R H gs gvs")
  case (Inl e)
  with a build_fingerprinted_pages_error[OF Inl] show ?thesis
    by (simp add: reduce_views_def)
next
  case (Inr fps)
  from passes_invariant[OF fresh_views_invariant[OF fresh Inr], of R H multipass 1 0]
  obtain gs' fps' ws' p' t' where
    "passes R H multipass gs fps [0..<length fps] 1 0 = Inr (gs', fps', ws', p', t')"
    by blast
  with a Inr show ?thesis
    by (simp add: reduce_views_def)
qed

lemma add_incoming_incoming:
  "add_incoming gs d i ts fps = Inr fps' \<Longrightarrow> j < length fps \<Longrightarrow>
   q \<in> set (incoming_pages (fps' ! j)) \<Longrightarrow>
   q \<in> set (incoming_pages (fps ! j)) \<or>
   (q = i \<and> (\<exists>t k. Some t \<in> set ts \<and> page_id gs t = Some k \<and> d k = Some j))"
proof (induction gs d i ts fps rule: add_incoming.induct)
  case (1 gs d i fps)
  then show ?case by simp
next
  case (2 gs d i ts fps)
  then show ?case by auto
next
  case (3 gs d i t' ts fps)
  from "3.prems"(1) obtain k' j' where k': "page_id gs t' = Some k'" and j': "d k' = Some j'"
    and *: "add_incoming gs d i ts
              (fps[j' := (fps ! j')\<lparr>incoming_pages := incoming_pages (fps ! j') @ [i]\<rparr>]) = Inr fps'"
    by (auto split: option.splits)
  let ?fps = "fps[j' := (fps ! j')\<lparr>incoming_pages := incoming_pages (fps ! j') @ [i]\<rparr>]"
  from "3.prems"(2) have "j < length ?fps"
    by simp
  from "3.IH"[OF k' j' * this "3.prems"(3)] show ?case
  proof
    assume q: "q \<in> set (incoming_pages (?fps ! j))"
    show ?thesis
    proof (cases "j' = j")
      case True
      with q "3.prems"(2) have "q \<in> set (incoming_pages (fps ! j)) \<or> q = i"
        by auto
      with True k' j' show ?thesis
        by auto
    next
      case False
      with q show ?thesis by simp
    qed
  next
    assume "q = i \<and> (\<exists>t k. Some t \<in> set ts \<and> page_id gs t = Some k \<and> d k = Some j)"
    then show ?thesis by auto
  qed
qed

lemma set_incoming_pages_incoming:
  "set_incoming_pages gs d vs i fps = Inr fps' \<Longrightarrow> j < length fps \<Longrightarrow>
   q \<in> set (incoming_pages (fps' ! j)) \<Longrightarrow>
   q \<in> set (incoming_pages (fps ! j)) \<or>
   (i \<le> q \<and> q < i + length vs \<and>
    (\<exists>t k. Some t \<in> set (map snd (actions (gs ! (vs ! (q - i))))) \<and>
           page_id gs t = Some k \<and> d k = Some j))"
proof (induction gs d vs i fps rule: set_incoming_pages.induct)
  case (1 gs d i fps)
  then show ?case by simp
next
  case (2 gs d v vs i fps)
  from "2.prems"(1) obtain fps1 where
    a: "add_incoming gs d i (map snd (actions (gs ! v))) fps = Inr fps1"
    and s: "set_incoming_pages gs d vs (Suc i) fps1 = Inr fps'"
    by (auto split: sum.splits)
  from add_incoming_length[OF a] "2.prems"(2) have "j < length fps1"
    by simp
  from "2.IH"[OF a s this "2.prems"(3)] show ?case
  proof
    assume "q \<in> set (incoming_pages (fps1 ! j))"
    from add_incoming_incoming[OF a "2.prems"(2) this] show ?thesis
    proof
      assume "q \<in> set (incoming_pages (fps ! j))"
      then show ?thesis by simp
    next
      assume "q = i \<and> (\<exists>t k. Some t \<in> set (map snd (actions (gs ! v))) \<and>
                page_id gs t = Some k \<and> d k = Some j)"
      then have "i \<le> q \<and> q < i + length (v # vs) \<and>
         (\<exists>t k. Some t \<in> set (map snd (actions (gs ! ((v # vs) ! (q - i))))) \<and>
                page_id gs t = Some k \<and> d k = Some j)"
        by simp
      then show ?thesis by (rule disjI2)
    qed
  next
    assume r: "Suc i \<le> q \<and> q < Suc i + length vs \<and>
      (\<exists>t k. Some t \<in> set (map snd (actions (gs ! (vs ! (q - Suc i))))) \<and>
             page_id gs t = Some k \<and> d k = Some j)"
    then have "q - i = Suc (q - Suc i)"
      by arith
    with r show ?thesis
      by simp
  qed
qed

lemma build_incoming_self:
  assumes fresh: "fresh_views gs gvs"
    and built: "build_fingerprinted_pages R H gs gvs = Inr fps"
    and p: "p < length gvs"
    and self: "actions (gs ! (gvs ! p)) = [(s, Some (gvs ! p))]"
    and j: "j < length fps"
    and inc: "p \<in> set (incoming_pages (fps ! j))"
  shows "j = p"
proof -
  from built obtain d where d: "fp_pages_per_page_id gs gvs 0 Map.empty = Inr d"
    and si: "set_incoming_pages gs d gvs 0 (map (FingerprintedPage R H gs) gvs) = Inr fps"
    by (auto simp: build_fingerprinted_pages_def Let_def split: sum.splits)
  from build_fingerprinted_pages_length[OF built] j have jl: "j < length gvs"
    by simp
  then have j0: "j < length (map (FingerprintedPage R H gs) gvs)"
    by simp
  from jl have "incoming_pages (map (FingerprintedPage R H gs) gvs ! j) = []"
    by (simp add: FingerprintedPage_def)
  with set_incoming_pages_incoming[OF si j0 inc] self obtain k where
    k: "page_id gs (gvs ! p) = Some k" and dk: "d k = Some j"
    by auto
  from fp_pages_per_page_id_entry[OF d dk] have u: "page_id gs (gvs ! j) = Some k"
    by simp
  from fresh have dg: "distinct gvs" and ing: "\<forall>v\<in>set gvs. v < length gs"
    and ids: "distinct (map assigned_page_id gs)"
    and roots: "\<forall>v<length gs. page_id_source (gs ! v) = None"
    by (simp_all add: fresh_views_def list_all_iff list_all_length)
  from p jl ing have pl: "gvs ! p < length gs" and ul: "gvs ! j < length gs"
    by simp_all
  with roots k u have
    "assigned_page_id (gs ! (gvs ! j)) = assigned_page_id (gs ! (gvs ! p))"
    by (simp add: page_id_root)
  with ids pl ul have "gvs ! j = gvs ! p"
    by (simp add: distinct_conv_nth) (metis nth_map length_map)
  with dg p jl show ?thesis
    by (simp add: nth_eq_iff_index_eq)
qed

lemma recompute_incoming_apart:
  assumes "p \<notin> set js"
    and "\<forall>i<length fps. i \<noteq> p \<longrightarrow> compute_fingerprint R H gs (game_view (fps ! i)) \<noteq> k0"
    and "\<forall>i<length fps. i \<noteq> p \<longrightarrow>
           fingerprint (fps ! i) \<noteq> k0 \<and> p \<notin> set (incoming_pages (fps ! i))"
  shows "fingerprint (recompute_incoming R H gs js fps ! p) = fingerprint (fps ! p) \<and>
         (\<forall>i<length fps. i \<noteq> p \<longrightarrow>
            fingerprint (recompute_incoming R H gs js fps ! i) \<noteq> k0 \<and>
            p \<notin> set (incoming_pages (recompute_incoming R H gs js fps ! i)))"
  using assms
proof (induction js arbitrary: fps)
  case Nil
  then show ?case by simp
next
  case (Cons j js)
  let ?fps = "fps[j := (fps ! j)\<lparr>fingerprint := compute_fingerprint R H gs (game_view (fps ! j))\<rparr>]"
  from Cons.prems(1) have jp: "j \<noteq> p" and pjs: "p \<notin> set js"
    by auto
  have gv: "\<And>i. i < length fps \<Longrightarrow> game_view (?fps ! i) = game_view (fps ! i)"
  proof -
    fix i
    assume "i < length fps"
    then show "game_view (?fps ! i) = game_view (fps ! i)"
      by (cases "j = i") simp_all
  qed
  have a2: "\<forall>i<length ?fps. i \<noteq> p \<longrightarrow>
              compute_fingerprint R H gs (game_view (?fps ! i)) \<noteq> k0"
    using Cons.prems(2) gv by simp
  have a3: "\<forall>i<length ?fps. i \<noteq> p \<longrightarrow>
              fingerprint (?fps ! i) \<noteq> k0 \<and> p \<notin> set (incoming_pages (?fps ! i))"
  proof (intro allI impI)
    fix i
    assume i: "i < length ?fps" "i \<noteq> p"
    then show "fingerprint (?fps ! i) \<noteq> k0 \<and> p \<notin> set (incoming_pages (?fps ! i))"
      using Cons.prems(2,3) by (cases "j = i") simp_all
  qed
  from jp have "?fps ! p = fps ! p"
    by simp
  with Cons.IH[OF pjs a2 a3] show ?case
    by simp
qed

lemma pass_loop_kept_apart:
  assumes p: "p < length gvs"
  shows "pass_invariant gs gvs fps m f ws \<Longrightarrow> kept_apart p k0 fps m f ws \<Longrightarrow>
         (\<And>pre suf gs'' fps'' m'' f''. ws = pre @ suf \<Longrightarrow>
            pass_loop R H gs fps m f pre = Inr (gs'', fps'', m'', f'') \<Longrightarrow>
            \<forall>v\<in>set gvs. v \<noteq> gvs ! p \<longrightarrow> compute_fingerprint R H gs'' v \<noteq> k0) \<Longrightarrow>
         pass_loop R H gs fps m f ws = Inr (gs', fps', m', f') \<Longrightarrow>
         kept_apart p k0 fps' m' f' []"
proof (induction ws arbitrary: gs fps m f)
  case Nil
  then show ?case by (simp add: kept_apart_def)
next
  case (Cons x xs)
  note inv = Cons.prems(1) and ka = Cons.prems(2) and hyp = Cons.prems(3)
    and pl = Cons.prems(4)
  note gvmap = pass_invariant_views[OF inv] and dg = pass_invariant_distinct_views[OF inv]
    and dl = pass_invariant_distinct[OF inv]
  from gvmap have len: "length fps = length gvs"
    by auto
  from pass_invariant_roots[OF inv, of x] have x: "x < length fps"
    by simp
  from ka have pin: "p \<in> set (f @ x # xs)" and fp: "fingerprint (fps ! p) = k0"
    and oth: "\<forall>i<length fps. i \<noteq> p \<longrightarrow>
                fingerprint (fps ! i) \<noteq> k0 \<and> p \<notin> set (incoming_pages (fps ! i))"
    and pm: "p \<in> set (x # xs) \<longrightarrow> m k0 = None"
    by (simp_all add: kept_apart_def)
  show ?case
  proof (cases "m (fingerprint (fps ! x))")
    case None
    let ?m = "m(fingerprint (fps ! x) \<mapsto> game_view (fps ! x))"
    from None have step: "\<And>ys. pass_loop R H gs fps m f (x # ys) = pass_loop R H gs fps ?m (f @ [x]) ys"
      by simp
    from pl have pl': "pass_loop R H gs fps ?m (f @ [x]) xs = Inr (gs', fps', m', f')"
      by (simp only: step)
    have hyp': "\<forall>v\<in>set gvs. v \<noteq> gvs ! p \<longrightarrow> compute_fingerprint R H gs'' v \<noteq> k0"
      if "xs = pre @ suf"
        and "pass_loop R H gs fps ?m (f @ [x]) pre = Inr (gs'', fps'', m'', f'')"
      for pre suf gs'' fps'' m'' f''
    proof -
      note that
      then have "x # xs = (x # pre) @ suf"
        and "pass_loop R H gs fps m f (x # pre) = Inr (gs'', fps'', m'', f'')"
        by (simp_all only: step append_Cons)
      then show ?thesis
        by (rule hyp)
    qed
    have "p \<in> set xs \<longrightarrow> ?m k0 = None"
    proof
      assume pxs: "p \<in> set xs"
      with dl have "x \<noteq> p"
        by auto
      with oth x have "fingerprint (fps ! x) \<noteq> k0"
        by simp
      with pm pxs show "?m k0 = None"
        by simp
    qed
    with pin fp oth have "kept_apart p k0 fps ?m (f @ [x]) xs"
      by (simp add: kept_apart_def)
    from Cons.IH[OF pass_invariant_keep[OF inv] this hyp' pl'] show ?thesis .
  next
    case (Some e)
    have xp: "x \<noteq> p"
    proof
      assume "x = p"
      with fp pm Some show False
        by simp
    qed
    let ?gs = "page_id_from gs (game_view (fps ! x)) e"
    let ?fps = "recompute_incoming R H ?gs (incoming_pages (fps ! x)) fps"
    from pass_invariant_merge(1)[OF inv Some] obtain a b where
      ab: "page_id gs (game_view (fps ! x)) = Some a" "page_id gs e = Some b" "a \<noteq> b"
      by blast
    with Some have step: "\<And>ys. pass_loop R H gs fps m f (x # ys) = pass_loop R H ?gs ?fps m f ys"
      by (simp add: Let_def)
    from pl have pl': "pass_loop R H ?gs ?fps m f xs = Inr (gs', fps', m', f')"
      by (simp only: step)
    have inv': "pass_invariant ?gs gvs ?fps m f xs"
      by (rule pass_invariant_merge(2)[OF inv Some]) (rule recompute_incoming_game_view)
    have hyp': "\<forall>v\<in>set gvs. v \<noteq> gvs ! p \<longrightarrow> compute_fingerprint R H gs'' v \<noteq> k0"
      if "xs = pre @ suf"
        and "pass_loop R H ?gs ?fps m f pre = Inr (gs'', fps'', m'', f'')"
      for pre suf gs'' fps'' m'' f''
    proof -
      note that
      then have "x # xs = (x # pre) @ suf"
        and "pass_loop R H gs fps m f (x # pre) = Inr (gs'', fps'', m'', f'')"
        by (simp_all only: step append_Cons)
      then show ?thesis
        by (rule hyp)
    qed
    from pin xp have pin': "p \<in> set (f @ xs)"
      by auto
    have good: "\<forall>v\<in>set gvs. v \<noteq> gvs ! p \<longrightarrow> compute_fingerprint R H ?gs v \<noteq> k0"
      by (rule hyp'[of "[]" xs]) simp_all
    from oth x xp have a1: "p \<notin> set (incoming_pages (fps ! x))"
      by simp
    have a2: "\<forall>i<length fps. i \<noteq> p \<longrightarrow>
                compute_fingerprint R H ?gs (game_view (fps ! i)) \<noteq> k0"
    proof (intro allI impI)
      fix i
      assume i: "i < length fps" "i \<noteq> p"
      with gvmap have gi: "game_view (fps ! i) = gvs ! i"
        by (metis nth_map)
      from i len p dg have "gvs ! i \<noteq> gvs ! p"
        by (simp add: nth_eq_iff_index_eq)
      moreover from i len have "gvs ! i \<in> set gvs"
        by simp
      ultimately show "compute_fingerprint R H ?gs (game_view (fps ! i)) \<noteq> k0"
        using good gi by simp
    qed
    from recompute_incoming_apart[OF a1 a2 oth] fp have
      "fingerprint (?fps ! p) = k0"
      "\<forall>i<length ?fps. i \<noteq> p \<longrightarrow>
          fingerprint (?fps ! i) \<noteq> k0 \<and> p \<notin> set (incoming_pages (?fps ! i))"
      by simp_all
    moreover from pm have "p \<in> set xs \<longrightarrow> m k0 = None"
      by simp
    ultimately have "kept_apart p k0 ?fps m f xs"
      using pin' by (simp add: kept_apart_def)
    from Cons.IH[OF inv' this hyp' pl'] show ?thesis .
  qed
qed

lemma reached_start:
  "ws = pre @ suf \<Longrightarrow> pass_loop R H gs fps Map.empty [] pre = Inr (gs'', fps'', m'', f'') \<Longrightarrow>
   reached R H mp gs fps ws n t gs''"
  unfolding reached_def
  by (rule exI[of _ 0]) (simp, blast)

lemma reached_next:
  assumes pl: "pass_loop R H gs fps Map.empty [] ws = Inr (gs1, fps1, m1, f1)"
    and go: "\<not> (int (length ws) - int (length f1) = 0 \<or> \<not> mp \<or>
               int (length ws) - int (length f1) < MIN_REMOVED_VIEWS_TO_GO_ON)"
    and r: "reached R H mp gs1 fps1 f1 (n + 1) (t + (int (length ws) - int (length f1))) gs''"
  shows "reached R H mp gs fps ws n t gs''"
proof -
  from r obtain k gsk fpsk pre suf pk tk fps' m' f' where
    s: "pass_state R H mp k gs1 fps1 f1 (n + 1) (t + (int (length ws) - int (length f1))) =
          Some (gsk, fpsk, pre @ suf, pk, tk)"
    and l: "pass_loop R H gsk fpsk Map.empty [] pre = Inr (gs'', fps', m', f')"
    unfolding reached_def by blast
  from pl go s have "pass_state R H mp (Suc k) gs fps ws n t =
          Some (gsk, fpsk, pre @ suf, pk, tk)"
    by simp
  with l show ?thesis
    unfolding reached_def by blast
qed

lemma passes_kept_apart:
  assumes p: "p < length gvs"
  shows "pass_invariant gs gvs fps Map.empty [] ws \<Longrightarrow>
         kept_apart p k0 fps Map.empty [] ws \<Longrightarrow>
         (\<And>gs''. reached R H mp gs fps ws n t gs'' \<Longrightarrow>
            \<forall>v\<in>set gvs. v \<noteq> gvs ! p \<longrightarrow> compute_fingerprint R H gs'' v \<noteq> k0) \<Longrightarrow>
         passes R H mp gs fps ws n t = Inr (gs', fps', ws', n', t') \<Longrightarrow>
         p \<in> set ws' \<and> pass_invariant gs' gvs fps' Map.empty [] ws'"
proof (induction "length ws" arbitrary: gs fps ws n t rule: less_induct)
  case less
  note inv = less.prems(1) and ka = less.prems(2) and hyp = less.prems(3)
    and run = less.prems(4)
  from pass_loop_invariant[OF inv, of R H] obtain gs1 fps1 m1 f1 where
    pl: "pass_loop R H gs fps Map.empty [] ws = Inr (gs1, fps1, m1, f1)"
    and inv1: "pass_invariant gs1 gvs fps1 m1 f1 []"
    by blast
  note nx = pass_invariant_next[OF inv1]
  have hyp0: "\<forall>v\<in>set gvs. v \<noteq> gvs ! p \<longrightarrow> compute_fingerprint R H gs'' v \<noteq> k0"
    if "ws = pre @ suf"
      and "pass_loop R H gs fps Map.empty [] pre = Inr (gs'', fps'', m'', f'')"
    for pre suf gs'' fps'' m'' f''
    by (rule hyp) (rule reached_start[OF that])
  from pass_loop_kept_apart[OF p inv ka hyp0 pl] have ka1: "kept_apart p k0 fps1 m1 f1 []" .
  then have kn: "kept_apart p k0 fps1 Map.empty [] f1"
    by (simp add: kept_apart_def)
  let ?r = "int (length ws) - int (length f1)"
  show ?case
  proof (cases "?r = 0 \<or> \<not> mp \<or> ?r < MIN_REMOVED_VIEWS_TO_GO_ON")
    case True
    then have "passes R H mp gs fps ws n t = Inr (gs1, fps1, f1, n + 1, t + ?r)"
      using pl by (simp add: passes.simps[of _ _ _ _ _ ws])
    with run have "gs' = gs1" "fps' = fps1" "ws' = f1"
      by simp_all
    with nx kn show ?thesis
      by (simp add: kept_apart_def)
  next
    case False
    then have "passes R H mp gs fps ws n t = passes R H mp gs1 fps1 f1 (n + 1) (t + ?r)"
      using pl by (simp add: passes.simps[of _ _ _ _ _ ws])
    with run have e: "passes R H mp gs1 fps1 f1 (n + 1) (t + ?r) = Inr (gs', fps', ws', n', t')"
      by simp
    from False have "length f1 < length ws"
      by (simp add: MIN_REMOVED_VIEWS_TO_GO_ON_def)
    have hyp1: "\<forall>v\<in>set gvs. v \<noteq> gvs ! p \<longrightarrow> compute_fingerprint R H gs'' v \<noteq> k0"
      if "reached R H mp gs1 fps1 f1 (n + 1) (t + ?r) gs''" for gs''
      by (rule hyp) (rule reached_next[OF pl False that])
    from less.hyps[OF \<open>length f1 < length ws\<close> nx kn hyp1 e] show ?thesis .
  qed
qed

text \<open>
  C7. On views that are different, not yet redirected and that have identifiers of their
  own, the run never ends with the \<open>AssertionError\<close> of line 42, whatever the pages link to.
  If moreover a page \<open>P\<close> has one action slot, which points to \<open>P\<close> itself, and in no heap
  that the run goes through another page of the list has the fingerprint of \<open>P\<close> (the one
  stored when the pages are built: only \<open>P\<close> links to \<open>P\<close>, so it is not computed again
  while \<open>P\<close> is kept), then \<open>P\<close> is among the pages of every run that returns, and it is
  not redirected.
\<close>

theorem self_loop_safe:
  assumes fresh: "fresh_views (fst (assign gs0 game_views0)) (snd (assign gs0 game_views0))"
    and P: "P \<in> set (snd (assign gs0 game_views0))"
    and self: "actions (fst (assign gs0 game_views0) ! P) = [(s, Some P)]"
  shows "reduce_views assign R H gs0 game_views0 multipass \<noteq> Inl AssertionError \<and>
    ((\<forall>fps gs' v.
         build_fingerprinted_pages R H (fst (assign gs0 game_views0))
           (snd (assign gs0 game_views0)) = Inr fps \<longrightarrow>
         reached R H multipass (fst (assign gs0 game_views0)) fps [0..<length fps] 1 0 gs' \<longrightarrow>
         v \<in> set (snd (assign gs0 game_views0)) \<longrightarrow> v \<noteq> P \<longrightarrow>
         compute_fingerprint R H gs' v \<noteq>
           compute_fingerprint R H (fst (assign gs0 game_views0)) P) \<longrightarrow>
     (\<forall>r. reduce_views assign R H gs0 game_views0 multipass = Inr r \<longrightarrow>
        P \<in> set (views r) \<and> page_id_source (heap r ! P) = None))"
proof -
  obtain gs gvs where a: "assign gs0 game_views0 = (gs, gvs)"
    by (cases "assign gs0 game_views0")
  with fresh P self have fr: "fresh_views gs gvs" and Pg: "P \<in> set gvs"
    and sf: "actions (gs ! P) = [(s, Some P)]"
    by simp_all
  from Pg obtain p where p: "p < length gvs" and pP: "gvs ! p = P"
    by (auto simp: in_set_conv_nth)
  let ?k0 = "compute_fingerprint R H gs P"
  have part2: "P \<in> set (views r) \<and> page_id_source (heap r ! P) = None"
    if hyp: "\<forall>fps gs' v. build_fingerprinted_pages R H gs gvs = Inr fps \<longrightarrow>
               reached R H multipass gs fps [0..<length fps] 1 0 gs' \<longrightarrow>
               v \<in> set gvs \<longrightarrow> v \<noteq> P \<longrightarrow> compute_fingerprint R H gs' v \<noteq> ?k0"
      and run: "reduce_views assign R H gs0 game_views0 multipass = Inr r" for r
  proof -
    from run a obtain fps where b: "build_fingerprinted_pages R H gs gvs = Inr fps"
      by (auto simp: reduce_views_def split: sum.splits)
    from run a b obtain gs' fps' ws' n' t' where
      ps: "passes R H multipass gs fps [0..<length fps] 1 0 = Inr (gs', fps', ws', n', t')"
      and h: "heap r = gs'" and v: "views r = map (\<lambda>i. game_view (fps' ! i)) ws'"
      by (auto simp: reduce_views_def split: sum.splits if_splits)
    note inv0 = fresh_views_invariant[OF fr b]
    note f = build_fingerprinted_pages_fields[OF b]
    from f(1) have len: "length fps = length gvs"
      by auto
    from fr have dg: "distinct gvs"
      by (simp add: fresh_views_def)
    have hyp': "\<forall>v\<in>set gvs. v \<noteq> gvs ! p \<longrightarrow> compute_fingerprint R H gs'' v \<noteq> ?k0"
      if "reached R H multipass gs fps [0..<length fps] 1 0 gs''" for gs''
      using hyp b that pP by blast
    have "reached R H multipass gs fps [0..<length fps] 1 0 gs"
      by (rule reached_start[of _ "[]" "[0..<length fps]"]) simp_all
    from hyp'[OF this] have hyp0: "\<forall>v\<in>set gvs. v \<noteq> gvs ! p \<longrightarrow>
        compute_fingerprint R H gs v \<noteq> ?k0" .
    from f(2) p len have fp: "fingerprint (fps ! p) = ?k0"
      by (metis nth_map pP)
    have oth: "\<forall>i<length fps. i \<noteq> p \<longrightarrow>
                 fingerprint (fps ! i) \<noteq> ?k0 \<and> p \<notin> set (incoming_pages (fps ! i))"
    proof (intro allI impI)
      fix i
      assume i: "i < length fps" "i \<noteq> p"
      with f(2) len have "fingerprint (fps ! i) = compute_fingerprint R H gs (gvs ! i)"
        by (metis nth_map)
      moreover from i len p dg have "gvs ! i \<noteq> gvs ! p"
        by (auto simp: nth_eq_iff_index_eq)
      moreover from i len have "gvs ! i \<in> set gvs"
        by simp
      ultimately have "fingerprint (fps ! i) \<noteq> ?k0"
        using hyp0 by simp
      moreover from sf pP have "actions (gs ! (gvs ! p)) = [(s, Some (gvs ! p))]"
        by simp
      from build_incoming_self[OF fr b p this i(1)] i(2)
      have "p \<notin> set (incoming_pages (fps ! i))"
        by auto
      ultimately show "fingerprint (fps ! i) \<noteq> ?k0 \<and> p \<notin> set (incoming_pages (fps ! i))"
        by simp
    qed
    from p len fp oth have ka: "kept_apart p ?k0 fps Map.empty [] [0..<length fps]"
      by (simp add: kept_apart_def)
    from passes_kept_apart[OF p inv0 ka hyp' ps] have
      pin: "p \<in> set ws'" and inv: "pass_invariant gs' gvs fps' Map.empty [] ws'"
      by simp_all
    from pass_invariant_roots[OF inv, of p] pin have pl: "p < length fps'"
      and root: "page_id_source (gs' ! (gvs ! p)) = None"
      by simp_all
    from pass_invariant_views[OF inv] pl have "game_view (fps' ! p) = gvs ! p"
      by (metis nth_map)
    with pin v pP have "P \<in> set (views r)"
      by force
    with root h pP show ?thesis
      by simp
  qed
  have "reduce_views assign R H gs0 game_views0 multipass \<noteq> Inl AssertionError"
    using a fr by (rule reduce_views_no_assertion)
  with a part2 show ?thesis
    by simp
qed

text \<open>
  The page 0 of \<open>three\<close> links to itself. The page 1 draws the same and links to the leaf:
  its fingerprint would be the one of page 0 if the leaf were redirected to page 0, but the
  run redirects nothing, so the only heap it goes through is the one it is given.
\<close>

theorem self_loop_safe_witness:
  "fresh_views (fst (assigned_already three [0, 1, 2]))
     (snd (assigned_already three [0, 1, 2])) \<and>
   (0::nat) \<in> set (snd (assigned_already three [0, 1, 2])) \<and>
   actions (fst (assigned_already three [0, 1, 2]) ! 0) = [(''a'', Some 0)] \<and>
   build_fingerprinted_pages render_links id three [0, 1, 2] = Inr three_pages \<and>
   compute_fingerprint render_links id (page_id_from three 2 0) 1 =
     compute_fingerprint render_links id three 0 \<and>
   reduce_views assigned_already render_links id three [0, 1, 2] True =
     Inr \<lparr>views = [0, 1, 2], heap = three, percent_removed = 0, next_pass_number = 2\<rparr> \<and>
   reduce_views assigned_already render_links id three [0, 1, 2] True \<noteq> Inl AssertionError \<and>
   (0::nat) \<in> set [0, 1, 2] \<and> page_id_source (three ! 0) = None"
proof -
  let ?r = "\<lparr>views = [0, 1, 2], heap = three, percent_removed = 0, next_pass_number = 2\<rparr>"
  note defs = assigned_already_def three_def three_pages_def new_view_def render_links_def
    compute_fingerprint_def get_fingerprint_def FingerprintedPage_def page_id.simps
    page_id_from_def
  have f: "fresh_views (fst (assigned_already three [0, 1, 2]))
     (snd (assigned_already three [0, 1, 2]))"
    by (simp add: fresh_views_def assigned_already_def three_def new_view_def)
  have P: "(0::nat) \<in> set (snd (assigned_already three [0, 1, 2]))"
    by (simp add: assigned_already_def)
  have s: "actions (fst (assigned_already three [0, 1, 2]) ! 0) = [(''a'', Some 0)]"
    by (simp add: assigned_already_def three_def new_view_def)
  have b: "build_fingerprinted_pages render_links id three [0, 1, 2] = Inr three_pages"
    by (simp add: build_fingerprinted_pages_def defs)
  have c: "compute_fingerprint render_links id (page_id_from three 2 0) 1 =
     compute_fingerprint render_links id three 0"
    by (simp add: defs)
  have l0: "pass_loop render_links id three three_pages Map.empty [] [] =
      Inr (three, three_pages, Map.empty, [])"
    by simp
  have l1: "\<exists>m. pass_loop render_links id three three_pages Map.empty [] [0] =
      Inr (three, three_pages, m, [0])"
    by (simp add: defs)
  have l2: "\<exists>m. pass_loop render_links id three three_pages Map.empty [] [0, 1] =
      Inr (three, three_pages, m, [0, 1])"
    by (simp add: defs)
  have l3: "\<exists>m. pass_loop render_links id three three_pages Map.empty [] [0, 1, 2] =
      Inr (three, three_pages, m, [0, 1, 2])"
    by (simp add: defs)
  have stop: "pass_state render_links id True (Suc k) three three_pages [0, 1, 2] 1 0 = None"
    for k
    using l3 by auto
  have only: "gs' = three"
    if "reached render_links id True three three_pages [0, 1, 2] 1 0 gs'" for gs'
  proof -
    from that obtain k gsk fpsk pre suf pk tk fps' m' f' where
      st: "pass_state render_links id True k three three_pages [0, 1, 2] 1 0 =
             Some (gsk, fpsk, pre @ suf, pk, tk)"
      and pl: "pass_loop render_links id gsk fpsk Map.empty [] pre = Inr (gs', fps', m', f')"
      unfolding reached_def by blast
    from st stop have k: "k = 0"
      by (cases k) simp_all
    from st have "Some (three, three_pages, [0, 1, 2], 1::nat, 0::int) =
        Some (gsk, fpsk, pre @ suf, pk, tk)"
      by (simp only: k pass_state.simps)
    then have e: "gsk = three" "fpsk = three_pages" "pre @ suf = [0, 1, 2]"
      by (simp_all only: option.inject prod.inject)
    from e(3) have "pre = [] \<or> pre = [0] \<or> pre = [0, 1] \<or> pre = [0, 1, 2]"
      by (auto simp: append_eq_Cons_conv)
    with pl e(1,2) l0 l1 l2 l3 show ?thesis
      by auto
  qed
  have h: "\<forall>fps gs' v.
       build_fingerprinted_pages render_links id (fst (assigned_already three [0, 1, 2]))
         (snd (assigned_already three [0, 1, 2])) = Inr fps \<longrightarrow>
       reached render_links id True (fst (assigned_already three [0, 1, 2])) fps
         [0..<length fps] 1 0 gs' \<longrightarrow>
       v \<in> set (snd (assigned_already three [0, 1, 2])) \<longrightarrow> v \<noteq> 0 \<longrightarrow>
       compute_fingerprint render_links id gs' v \<noteq>
         compute_fingerprint render_links id (fst (assigned_already three [0, 1, 2])) 0"
  proof (intro allI impI)
    fix fps :: "(nat \<times> (string \<times> nat option) list) list fingerprinted_page list"
      and gs' :: "nat game_view list" and v :: nat
    assume "build_fingerprinted_pages render_links id (fst (assigned_already three [0, 1, 2]))
         (snd (assigned_already three [0, 1, 2])) = Inr fps"
    with b have fps: "fps = three_pages"
      by (simp add: assigned_already_def)
    have u: "[0..<length three_pages] = [0, 1, 2]"
      by (simp add: three_pages_def upt_rec)
    assume "reached render_links id True (fst (assigned_already three [0, 1, 2])) fps
         [0..<length fps] 1 0 gs'"
    with fps u have "reached render_links id True three three_pages [0, 1, 2] 1 0 gs'"
      by (simp add: assigned_already_def)
    then have gs': "gs' = three"
      by (rule only)
    assume "v \<in> set (snd (assigned_already three [0, 1, 2]))" and "v \<noteq> 0"
    then have "v = 1 \<or> v = 2"
      by (simp add: assigned_already_def)
    with gs' show "compute_fingerprint render_links id gs' v \<noteq>
         compute_fingerprint render_links id (fst (assigned_already three [0, 1, 2])) 0"
      by (auto simp: defs)
  qed
  have r: "reduce_views assigned_already render_links id three [0, 1, 2] True = Inr ?r"
    by (simp add: reduce_views_def build_fingerprinted_pages_def defs upt_rec
        MIN_REMOVED_VIEWS_TO_GO_ON_def passes.simps)
  from self_loop_safe
         [of assigned_already three "[0, 1, 2]" 0 "''a''" render_links id True, OF f P s]
       h r f P s b c
  show ?thesis
    by simp
qed

end
